theory Spec2Isabelle
  imports Complex_Main "HOL-Library.Log_Nat" "HOL-Library.AList" "HOL-Library.Multiset"
begin

section \<open>Python floats\<close>

text \<open>
  A Python float is an IEEE 754 binary64 number. The durations of \<^verbatim>\<open>logetime.py\<close> lie
  between a microsecond and a few thousand years, far from overflow and from the
  subnormal range, so a float is modelled by the rational number it denotes, and every
  float operation by the exact operation followed by rounding to 53 significant bits,
  ties to even (\<open>to_double\<close>), as IEEE 754 prescribes for \<^verbatim>\<open>+\<close>, \<^verbatim>\<open>-\<close> and \<^verbatim>\<open>/\<close>.
\<close>

type_synonym pyfloat = rat

definition round_half_even :: "rat \<Rightarrow> int" where
  "round_half_even x =
     (let f = \<lfloor>x\<rfloor>; d = x - of_int f
      in if d < 1/2 then f else if 1/2 < d then f + 1 else if even f then f else f + 1)"

definition floor_log2 :: "rat \<Rightarrow> int" where
  \<comment> \<open>the exponent \<open>E\<close> with \<open>2^E \<le> |x| < 2^(E+1)\<close>, for \<open>x \<noteq> 0\<close>\<close>
  "floor_log2 x =
     (if 1 \<le> \<bar>x\<bar> then bitlen \<lfloor>\<bar>x\<bar>\<rfloor> - 1 else - bitlen (\<lceil>1 / \<bar>x\<bar>\<rceil> - 1))"

definition to_double :: "rat \<Rightarrow> pyfloat" where
  "to_double x =
     (if x = 0 then 0
      else let e = floor_log2 x - 52
           in of_int (round_half_even (x * 2 powi (- e))) * 2 powi e)"

definition float_add :: "pyfloat \<Rightarrow> pyfloat \<Rightarrow> pyfloat" where
  "float_add a b = to_double (a + b)"

definition float_sub :: "pyfloat \<Rightarrow> pyfloat \<Rightarrow> pyfloat" where
  "float_sub a b = to_double (a - b)"

definition float_div :: "pyfloat \<Rightarrow> pyfloat \<Rightarrow> pyfloat" where
  "float_div a b = to_double (a / b)"

definition int_truediv :: "int \<Rightarrow> int \<Rightarrow> pyfloat" where
  \<comment> \<open>\<^verbatim>\<open>a / b\<close> on Python ints is the correctly rounded quotient\<close>
  "int_truediv a b = to_double (of_int a / of_int b)"

definition py_round2 :: "pyfloat \<Rightarrow> pyfloat" where
  \<comment> \<open>\<^verbatim>\<open>round(x, 2)\<close>: the exact value of \<open>x\<close> is rounded to two decimals, ties to even,
      and the decimal result is converted back to the nearest float\<close>
  "py_round2 x = to_double (of_int (round_half_even (x * 100)) / 100)"

definition py_sum :: "pyfloat list \<Rightarrow> pyfloat" where
  \<comment> \<open>\<^verbatim>\<open>sum(values)\<close>: left to right, starting from 0\<close>
  "py_sum vs = foldl float_add 0 vs"

section \<open>Strings\<close>

definition replace_Z :: "string \<Rightarrow> string" where
  \<comment> \<open>\<^verbatim>\<open>s.replace("Z", "+00:00")\<close>\<close>
  "replace_Z s = concat (map (\<lambda>c. if c = CHR ''Z'' then ''+00:00'' else [c]) s)"

definition digit_char :: "nat \<Rightarrow> char" where
  "digit_char n = ''0123456789'' ! n"

fun str_nat :: "nat \<Rightarrow> string" where
  "str_nat n = (if n < 10 then [digit_char n] else str_nat (n div 10) @ [digit_char (n mod 10)])"

declare str_nat.simps [simp del]

definition str_int :: "int \<Rightarrow> string" where
  "str_int i = (if i < 0 then CHR ''-'' # str_nat (nat (- i)) else str_nat (nat i))"

definition zfill :: "nat \<Rightarrow> string \<Rightarrow> string" where
  "zfill w s = replicate (w - length s) CHR ''0'' @ s"

section \<open>The datetime library\<close>

datatype exn = ValueError | TypeError | OverflowError | HTTPError

text \<open>
  A \<^verbatim>\<open>datetime\<close> holds its calendar fields and, when it is aware, the offset of its zone
  from UTC (in microseconds); \<open>None\<close> is a naive datetime.
\<close>

record datetime =
  dt_year :: int
  dt_month :: int
  dt_day :: int
  dt_hour :: int
  dt_minute :: int
  dt_second :: int
  dt_microsecond :: int
  dt_utcoffset :: "int option"

definition is_leap :: "int \<Rightarrow> bool" where
  "is_leap year = (year mod 4 = 0 \<and> (year mod 100 \<noteq> 0 \<or> year mod 400 = 0))"

definition days_before_year :: "int \<Rightarrow> int" where
  "days_before_year year = (let y = year - 1 in y * 365 + y div 4 - y div 100 + y div 400)"

definition DAYS_IN_MONTH :: "int list" where
  "DAYS_IN_MONTH = [-1, 31, 28, 31, 30, 31, 30, 31, 31, 30, 31, 30, 31]"

definition DAYS_BEFORE_MONTH :: "int list" where
  "DAYS_BEFORE_MONTH = [-1, 0, 31, 59, 90, 120, 151, 181, 212, 243, 273, 304, 334]"

definition days_in_month :: "int \<Rightarrow> int \<Rightarrow> int" where
  "days_in_month year month =
     (if month = 2 \<and> is_leap year then 29 else DAYS_IN_MONTH ! nat month)"

definition days_before_month :: "int \<Rightarrow> int \<Rightarrow> int" where
  "days_before_month year month =
     DAYS_BEFORE_MONTH ! nat month + (if month > 2 \<and> is_leap year then 1 else 0)"

definition ymd2ord :: "int \<Rightarrow> int \<Rightarrow> int \<Rightarrow> int" where
  "ymd2ord year month day = days_before_year year + days_before_month year month + day"

definition ord2ymd :: "int \<Rightarrow> int \<times> int \<times> int" where
  "ord2ymd n0 =
     (let n = n0 - 1;
          n400 = n div 146097; n = n mod 146097;
          year = n400 * 400 + 1;
          n100 = n div 36524; n = n mod 36524;
          n4 = n div 1461; n = n mod 1461;
          n1 = n div 365; n = n mod 365;
          year = year + n100 * 100 + n4 * 4 + n1
      in if n1 = 4 \<or> n100 = 4 then (year - 1, 12, 31)
         else let leapyear = (n1 = 3 \<and> (n4 \<noteq> 24 \<or> n100 = 3));
                  month = (n + 50) div 32;
                  preceding = DAYS_BEFORE_MONTH ! nat month + (if month > 2 \<and> leapyear then 1 else 0);
                  (month, preceding) =
                    (if preceding > n
                     then (month - 1,
                           preceding - (DAYS_IN_MONTH ! nat (month - 1)
                                        + (if month - 1 = 2 \<and> leapyear then 1 else 0)))
                     else (month, preceding))
              in (year, month, n - preceding + 1))"

definition toordinal :: "datetime \<Rightarrow> int" where
  "toordinal d = ymd2ord (dt_year d) (dt_month d) (dt_day d)"

text \<open>
  A \<^verbatim>\<open>timedelta\<close> is modelled by its length in microseconds. \<open>datetime_sub a b\<close> is
  \<^verbatim>\<open>a - b\<close>: the difference of the calendar fields, corrected by the two offsets when they
  differ; mixing a naive and an aware datetime raises \<^verbatim>\<open>TypeError\<close>.
\<close>

type_synonym timedelta = int

definition datetime_sub :: "datetime \<Rightarrow> datetime \<Rightarrow> exn + timedelta" where
  "datetime_sub a b =
     (let secs1 = dt_second a + dt_minute a * 60 + dt_hour a * 3600;
          secs2 = dt_second b + dt_minute b * 60 + dt_hour b * 3600;
          base = ((toordinal a - toordinal b) * 86400 + (secs1 - secs2)) * 1000000
                 + (dt_microsecond a - dt_microsecond b)
      in if dt_utcoffset a = dt_utcoffset b then Inr base
         else case (dt_utcoffset a, dt_utcoffset b) of
                (Some myoff, Some otoff) \<Rightarrow> Inr (base + otoff - myoff)
              | _ \<Rightarrow> Inl TypeError)"

definition total_seconds :: "timedelta \<Rightarrow> pyfloat" where
  "total_seconds td = int_truediv td 1000000"

definition strftime_Ymd :: "datetime \<Rightarrow> string" where
  \<comment> \<open>\<^verbatim>\<open>strftime("%Y-%m-%d")\<close>, the year written with four digits\<close>
  "strftime_Ymd d =
     zfill 4 (str_int (dt_year d)) @ ''-'' @ zfill 2 (str_int (dt_month d))
       @ ''-'' @ zfill 2 (str_int (dt_day d))"

definition strftime_Ym :: "datetime \<Rightarrow> string" where
  \<comment> \<open>\<^verbatim>\<open>strftime("%Y-%m")\<close>\<close>
  "strftime_Ym d = zfill 4 (str_int (dt_year d)) @ ''-'' @ zfill 2 (str_int (dt_month d))"

definition minus_days :: "datetime \<Rightarrow> int \<Rightarrow> exn + datetime" where
  \<comment> \<open>\<^verbatim>\<open>d - timedelta(days=i)\<close>: the time of day is kept, the date moves by whole days\<close>
  "minus_days d i =
     (let n = toordinal d - i
      in if 0 < n \<and> n \<le> 3652059
         then (case ord2ymd n of (y, m, dd) \<Rightarrow> Inr (d\<lparr>dt_year := y, dt_month := m, dt_day := dd\<rparr>))
         else Inl OverflowError)"

section \<open>Parsing timestamps\<close>

text \<open>
  \<^verbatim>\<open>datetime.fromisoformat\<close> belongs to the Python library and accepts more or fewer
  spellings from one Python version to the next. The functions of the program therefore
  take the parser as an argument \<open>parse\<close> (\<open>None\<close> is its \<^verbatim>\<open>ValueError\<close>), and what is
  proved of them holds for every parser. \<open>fromisoformat\<close> below is the parser on the
  spelling that every version accepts and that the campus API sends once \<^verbatim>\<open>Z\<close> is replaced:
  \<^verbatim>\<open>YYYY-MM-DDTHH:MM:SS\<close>, an optional fraction of 3 or 6 digits, an optional offset
  \<^verbatim>\<open>+HH:MM\<close> or \<^verbatim>\<open>-HH:MM\<close>. It is used to run the program on concrete records.
\<close>

type_synonym parser = "string \<Rightarrow> datetime option"

definition digit_val :: "char \<Rightarrow> int" where
  "digit_val c = int (length (takeWhile (\<lambda>d. d \<noteq> c) ''0123456789''))"

definition parse_digits :: "string \<Rightarrow> int option" where
  "parse_digits s =
     (if s \<noteq> [] \<and> list_all (\<lambda>c. c \<in> set ''0123456789'') s
      then Some (foldl (\<lambda>a c. 10 * a + digit_val c) 0 s) else None)"

definition parse_date :: "string \<Rightarrow> (int \<times> int \<times> int) option" where
  "parse_date s =
     (if length s = 10 \<and> s ! 4 = CHR ''-'' \<and> s ! 7 = CHR ''-''
      then (case (parse_digits (take 4 s), parse_digits (take 2 (drop 5 s)),
                  parse_digits (drop 8 s)) of
              (Some y, Some m, Some d) \<Rightarrow>
                if 1 \<le> y \<and> 1 \<le> m \<and> m \<le> 12 \<and> 1 \<le> d \<and> d \<le> days_in_month y m
                then Some (y, m, d) else None
            | _ \<Rightarrow> None)
      else None)"

definition parse_time :: "string \<Rightarrow> (int \<times> int \<times> int \<times> int) option" where
  "parse_time t =
     (if (length t = 8 \<or> length t = 12 \<or> length t = 15)
         \<and> t ! 2 = CHR '':'' \<and> t ! 5 = CHR '':''
      then (case (parse_digits (take 2 t), parse_digits (take 2 (drop 3 t)),
                  parse_digits (take 2 (drop 6 t))) of
              (Some h, Some m, Some s) \<Rightarrow>
                if h < 24 \<and> m < 60 \<and> s < 60
                then (if length t = 8 then Some (h, m, s, 0)
                      else if t ! 8 = CHR ''.''
                      then (case parse_digits (drop 9 t) of
                              Some f \<Rightarrow> Some (h, m, s, if length t = 12 then f * 1000 else f)
                            | None \<Rightarrow> None)
                      else None)
                else None
            | _ \<Rightarrow> None)
      else None)"

definition parse_offset :: "string \<Rightarrow> int option option" where
  \<comment> \<open>\<open>Some None\<close>: no offset, a naive time; \<open>None\<close>: malformed\<close>
  "parse_offset z =
     (if z = [] then Some None
      else if length z = 6 \<and> z ! 3 = CHR '':''
      then (case (parse_digits (take 2 (drop 1 z)), parse_digits (drop 4 z)) of
              (Some h, Some m) \<Rightarrow>
                if h < 24 \<and> m < 60
                then Some (Some ((if hd z = CHR ''-'' then - 1 else 1)
                                 * ((h * 3600 + m * 60) * 1000000)))
                else None
            | _ \<Rightarrow> None)
      else None)"

definition fromisoformat :: parser where
  "fromisoformat s =
     (let tstr = drop 11 s;
          is_sign = (\<lambda>c. c = CHR ''+'' \<or> c = CHR ''-'')
      in case (parse_date (take 10 s), parse_time (takeWhile (\<lambda>c. \<not> is_sign c) tstr),
               parse_offset (dropWhile (\<lambda>c. \<not> is_sign c) tstr)) of
           (Some (y, m, d), Some (hh, mm, ss, us), Some off) \<Rightarrow>
             if length s > 10
             then Some \<lparr>dt_year = y, dt_month = m, dt_day = d, dt_hour = hh, dt_minute = mm,
                        dt_second = ss, dt_microsecond = us, dt_utcoffset = off\<rparr>
             else None
         | _ \<Rightarrow> None)"

text \<open>Running a fallible function over a list stops at the first exception.\<close>

fun collect :: "('a \<Rightarrow> exn + 'b) \<Rightarrow> 'a list \<Rightarrow> exn + 'b list" where
  "collect f [] = Inr []"
| "collect f (x # xs) =
     (case f x of
        Inl e \<Rightarrow> Inl e
      | Inr y \<Rightarrow> (case collect f xs of Inl e \<Rightarrow> Inl e | Inr ys \<Rightarrow> Inr (y # ys)))"

section \<open>The Time-Bucket Aggregator: \<^verbatim>\<open>calculate_hours\<close>\<close>

text \<open>
  One record of the campus API's \<^verbatim>\<open>locations\<close> answer: \<^verbatim>\<open>begin_at\<close> is a string,
  \<^verbatim>\<open>end_at\<close> a string or \<^verbatim>\<open>null\<close>, \<^verbatim>\<open>host\<close> may be absent.
\<close>

record location =
  loc_id :: int
  loc_begin_at :: string
  loc_end_at :: "string option"
  loc_host :: "string option"

text \<open>
  A Python \<^verbatim>\<open>dict\<close> keeps its keys in insertion order: an association list in which
  \<open>AList.update\<close> overwrites an existing key in place and appends a new one.
  Two dicts are equal in Python when they hold the same keys with the same values,
  that is, when their \<open>map_of\<close> agree.
\<close>

type_synonym hours_dict = "(string \<times> pyfloat) list"

definition bucket_add :: "string \<Rightarrow> pyfloat \<Rightarrow> hours_dict \<Rightarrow> hours_dict" where
  \<comment> \<open>\<^verbatim>\<open>if key not in d: d[key] = 0\<close> and then \<^verbatim>\<open>d[key] += duration\<close>\<close>
  "bucket_add key duration d =
     (let d1 = (if map_of d key = None then AList.update key 0 d else d)
      in case map_of d1 key of
           Some old \<Rightarrow> AList.update key (float_add old duration) d1
         | None \<Rightarrow> d1)"

definition end_or_now :: "parser \<Rightarrow> datetime \<Rightarrow> location \<Rightarrow> datetime option" where
  \<comment> \<open>\<^verbatim>\<open>fromisoformat(loc["end_at"].replace(...)) if loc["end_at"] else now\<close>:
      \<^verbatim>\<open>None\<close> and the empty string are both false\<close>
  "end_or_now parse now loc =
     (case loc_end_at loc of
        None \<Rightarrow> Some now
      | Some s \<Rightarrow> if s = [] then Some now else parse (replace_Z s))"

definition hours_between :: "datetime \<Rightarrow> datetime \<Rightarrow> exn + pyfloat" where
  \<comment> \<open>\<^verbatim>\<open>(end_at - begin_at).total_seconds() / 3600\<close>\<close>
  "hours_between end_at begin_at =
     (case datetime_sub end_at begin_at of
        Inl e \<Rightarrow> Inl e
      | Inr td \<Rightarrow> Inr (float_div (total_seconds td) 3600))"

definition begin_and_duration ::
  "parser \<Rightarrow> datetime \<Rightarrow> location \<Rightarrow> exn + datetime \<times> pyfloat"
where
  \<comment> \<open>the first three statements of the loop body: \<^verbatim>\<open>begin_at\<close>, \<^verbatim>\<open>end_at\<close>, \<^verbatim>\<open>duration\<close>\<close>
  "begin_and_duration parse now loc =
     (case parse (replace_Z (loc_begin_at loc)) of
        None \<Rightarrow> Inl ValueError
      | Some begin_at \<Rightarrow>
          (case end_or_now parse now loc of
             None \<Rightarrow> Inl ValueError
           | Some end_at \<Rightarrow>
               (case hours_between end_at begin_at of
                  Inl e \<Rightarrow> Inl e
                | Inr duration \<Rightarrow> Inr (begin_at, duration))))"

definition loop_body ::
  "parser \<Rightarrow> datetime \<Rightarrow> location \<Rightarrow> hours_dict \<times> hours_dict \<Rightarrow> exn + hours_dict \<times> hours_dict"
where
  "loop_body parse now loc acc =
     (case begin_and_duration parse now loc of
        Inl e \<Rightarrow> Inl e
      | Inr (begin_at, duration) \<Rightarrow>
          Inr (bucket_add (strftime_Ymd begin_at) duration (fst acc),
               bucket_add (strftime_Ym begin_at) duration (snd acc)))"

fun accumulate ::
  "parser \<Rightarrow> datetime \<Rightarrow> location list \<Rightarrow> hours_dict \<times> hours_dict \<Rightarrow> exn + hours_dict \<times> hours_dict"
where
  "accumulate parse now [] acc = Inr acc"
| "accumulate parse now (loc # locs) acc =
     (case loop_body parse now loc acc of
        Inl e \<Rightarrow> Inl e
      | Inr acc' \<Rightarrow> accumulate parse now locs acc')"

definition round_values :: "hours_dict \<Rightarrow> hours_dict" where
  \<comment> \<open>\<^verbatim>\<open>for key in d: d[key] = round(d[key], 2)\<close>\<close>
  "round_values d = map (\<lambda>(k, v). (k, py_round2 v)) d"

definition calculate_hours ::
  "parser \<Rightarrow> datetime \<Rightarrow> location list \<Rightarrow> exn + hours_dict \<times> hours_dict"
where
  "calculate_hours parse now locations =
     (case accumulate parse now locations ([], []) of
        Inl e \<Rightarrow> Inl e
      | Inr (daily_hours, monthly_hours) \<Rightarrow>
          Inr (round_values daily_hours, round_values monthly_hours))"

section \<open>The Session-Window Resolver: \<^verbatim>\<open>get_current_session\<close>\<close>

definition format_offset :: "int \<Rightarrow> string" where
  "format_offset off =
     (let a = \<bar>off\<bar>;
          hh = a div 3600000000; r = a mod 3600000000;
          mm = r div 60000000; ss = r mod 60000000
      in (if off < 0 then ''-'' else ''+'') @ zfill 2 (str_int hh) @ '':'' @ zfill 2 (str_int mm)
         @ (if ss \<noteq> 0 then '':'' @ zfill 2 (str_int (ss div 1000000)) else [])
         @ (if ss mod 1000000 \<noteq> 0 then ''.'' @ zfill 6 (str_int (ss mod 1000000)) else []))"

definition isoformat :: "datetime \<Rightarrow> string" where
  "isoformat d =
     zfill 4 (str_int (dt_year d)) @ ''-'' @ zfill 2 (str_int (dt_month d)) @ ''-''
       @ zfill 2 (str_int (dt_day d)) @ ''T'' @ zfill 2 (str_int (dt_hour d)) @ '':''
       @ zfill 2 (str_int (dt_minute d)) @ '':'' @ zfill 2 (str_int (dt_second d))
       @ (if dt_microsecond d \<noteq> 0 then ''.'' @ zfill 6 (str_int (dt_microsecond d)) else [])
       @ (case dt_utcoffset d of None \<Rightarrow> [] | Some off \<Rightarrow> format_offset off)"










section \<open>The report of \<^verbatim>\<open>main\<close>\<close>


definition dict_get :: "hours_dict \<Rightarrow> string \<Rightarrow> pyfloat \<Rightarrow> pyfloat" where
  \<comment> \<open>\<^verbatim>\<open>d.get(key, default)\<close>\<close>
  "dict_get d key dflt = (case map_of d key of None \<Rightarrow> dflt | Some v \<Rightarrow> v)"




section \<open>The elapsed-time formatter: \<^verbatim>\<open>format_time_difference\<close>\<close>

text \<open>
  \<^verbatim>\<open>x // y\<close> and \<^verbatim>\<open>x % y\<close> on floats, as the interpreter computes them from the exact C
  \<^verbatim>\<open>fmod\<close>.
\<close>

definition c_fmod :: "pyfloat \<Rightarrow> pyfloat \<Rightarrow> pyfloat" where
  \<comment> \<open>the remainder with the sign of \<open>x\<close>; exact\<close>
  "c_fmod x y = x - of_int (if 0 \<le> x / y then \<lfloor>x / y\<rfloor> else \<lceil>x / y\<rceil>) * y"

definition float_divmod :: "pyfloat \<Rightarrow> pyfloat \<Rightarrow> pyfloat \<times> pyfloat" where
  "float_divmod vx wx =
     (let mod0 = c_fmod vx wx;
          div0 = float_div (float_sub vx mod0) wx;
          adjust = (mod0 \<noteq> 0 \<and> ((wx < 0) \<noteq> (mod0 < 0)));
          md = (if adjust then float_add mod0 wx else mod0);
          dv = (if adjust then float_sub div0 1 else div0);
          floordiv = (if dv \<noteq> 0
                      then (let f = of_int \<lfloor>dv\<rfloor>
                            in if float_sub dv f > 1/2 then float_add f 1 else f)
                      else 0)
      in (floordiv, md))"

definition float_floordiv :: "pyfloat \<Rightarrow> pyfloat \<Rightarrow> pyfloat" where
  "float_floordiv vx wx = fst (float_divmod vx wx)"

definition float_mod :: "pyfloat \<Rightarrow> pyfloat \<Rightarrow> pyfloat" where
  "float_mod vx wx = snd (float_divmod vx wx)"

definition py_int :: "pyfloat \<Rightarrow> int" where
  \<comment> \<open>\<^verbatim>\<open>int(x)\<close> truncates towards zero\<close>
  "py_int x = (if 0 \<le> x then \<lfloor>x\<rfloor> else \<lceil>x\<rceil>)"

definition render_difference :: "timedelta \<Rightarrow> string" where
  "render_difference diff =
     (let hours = py_int (float_floordiv (total_seconds diff) 3600);
          minutes = py_int (float_floordiv (float_mod (total_seconds diff) 3600) 60)
      in if hours > 0 then str_int hours @ ''h '' @ str_int minutes @ ''m''
         else str_int minutes @ ''m'')"

definition format_time_difference :: "parser \<Rightarrow> datetime \<Rightarrow> string \<Rightarrow> string" where
  \<comment> \<open>every exception raised in the \<^verbatim>\<open>try\<close> block ends in the \<^verbatim>\<open>except\<close> branch\<close>
  "format_time_difference parse now start_time_str =
     (case parse (replace_Z start_time_str) of
        None \<Rightarrow> ''Error calculating time''
      | Some start_time \<Rightarrow>
          (case datetime_sub now start_time of
             Inl e \<Rightarrow> ''Error calculating time''
           | Inr diff \<Rightarrow> render_difference diff))"

section \<open>What a bucket holds\<close>

text \<open>
  The intervals of a list of records, when every record can be read, and the total that
  the spec assigns to the bucket \<open>k\<close> of a key function: the durations of the intervals
  whose begin timestamp has the key \<open>k\<close>, added in the order of the list and rounded once;
  no bucket when there is no such interval.
\<close>

definition intervals ::
  "parser \<Rightarrow> datetime \<Rightarrow> location list \<Rightarrow> exn + (datetime \<times> pyfloat) list"
where
  "intervals parse now locations = collect (begin_and_duration parse now) locations"

definition bucket_durations ::
  "(datetime \<Rightarrow> string) \<Rightarrow> (datetime \<times> pyfloat) list \<Rightarrow> string \<Rightarrow> pyfloat list"
where
  "bucket_durations key ivs k = map snd (filter (\<lambda>iv. key (fst iv) = k) ivs)"

definition bucket_sum ::
  "(datetime \<Rightarrow> string) \<Rightarrow> (datetime \<times> pyfloat) list \<Rightarrow> string \<Rightarrow> pyfloat option"
where
  "bucket_sum key ivs k =
     (if bucket_durations key ivs k = [] then None
      else Some (py_sum (bucket_durations key ivs k)))"

definition bucket_total ::
  "(datetime \<Rightarrow> string) \<Rightarrow> (datetime \<times> pyfloat) list \<Rightarrow> string \<Rightarrow> pyfloat option"
where
  "bucket_total key ivs k = map_option py_round2 (bucket_sum key ivs k)"

text \<open>The unrounded dict after all the intervals have been added to \<open>d\<close>.\<close>

definition add_all :: "(datetime \<Rightarrow> string) \<Rightarrow> (datetime \<times> pyfloat) list \<Rightarrow> hours_dict \<Rightarrow> hours_dict" where
  "add_all key ivs d = foldl (\<lambda>d iv. bucket_add (key (fst iv)) (snd iv) d) d ivs"

definition round_slack :: "pyfloat \<Rightarrow> rat" where
  \<comment> \<open>half a hundredth, and the error of converting the rounded decimal to a float\<close>
  "round_slack a = 1 / 200 + (\<bar>a\<bar> + 1 / 200) / 2 ^ 53"


definition exact_hours :: "timedelta \<Rightarrow> rat" where
  \<comment> \<open>the length of an interval in hours, without any rounding\<close>
  "exact_hours td = of_int td / 3600000000"

definition exact_total :: "parser \<Rightarrow> datetime \<Rightarrow> location list \<Rightarrow> rat" where
  \<comment> \<open>the sum of the exact durations of the records\<close>
  "exact_total parse now locations =
     sum_list (map (\<lambda>loc.
        case (parse (replace_Z (loc_begin_at loc)), end_or_now parse now loc) of
          (Some begin_at, Some end_at) \<Rightarrow>
            (case datetime_sub end_at begin_at of Inr td \<Rightarrow> exact_hours td | Inl e \<Rightarrow> 0)
        | _ \<Rightarrow> 0) locations)"

section \<open>Concrete records\<close>

text \<open>Clock readings and API records on which the program is run below.\<close>

definition ex_now_utc :: datetime where
  "ex_now_utc = \<lparr>dt_year = 2025, dt_month = 5, dt_day = 1, dt_hour = 12, dt_minute = 0,
     dt_second = 0, dt_microsecond = 0, dt_utcoffset = Some 0\<rparr>"



definition ex_boundary :: location where
  "ex_boundary = \<lparr>loc_id = 1, loc_begin_at = ''2025-03-31T23:00:00.000Z'',
     loc_end_at = Some ''2025-04-01T01:00:00.000Z'', loc_host = Some ''e1r1p1''\<rparr>"

definition ex_boundary_begin :: datetime where
  "ex_boundary_begin = \<lparr>dt_year = 2025, dt_month = 3, dt_day = 31, dt_hour = 23, dt_minute = 0,
     dt_second = 0, dt_microsecond = 0, dt_utcoffset = Some 0\<rparr>"

definition closed_session :: "string \<Rightarrow> string \<Rightarrow> location" where
  "closed_session b e = \<lparr>loc_id = 1, loc_begin_at = b, loc_end_at = Some e,
     loc_host = Some ''e1r1p1''\<rparr>"

definition at_utc :: "int \<Rightarrow> int \<Rightarrow> int \<Rightarrow> int \<Rightarrow> int \<Rightarrow> int \<Rightarrow> datetime" where
  "at_utc y m d hh mm ss = \<lparr>dt_year = y, dt_month = m, dt_day = d, dt_hour = hh,
     dt_minute = mm, dt_second = ss, dt_microsecond = 0, dt_utcoffset = Some 0\<rparr>"







text \<open>Three sessions of 1, 1 and 88 seconds on one day, in two orders.\<close>

definition ex_1s_a :: location where
  "ex_1s_a = closed_session ''2025-01-10T08:00:00.000Z'' ''2025-01-10T08:00:01.000Z''"

definition ex_1s_b :: location where
  "ex_1s_b = closed_session ''2025-01-10T09:00:00.000Z'' ''2025-01-10T09:00:01.000Z''"

definition ex_88s :: location where
  "ex_88s = closed_session ''2025-01-10T10:00:00.000Z'' ''2025-01-10T10:01:28.000Z''"

text \<open>Three sessions of 15 seconds on three days.\<close>

definition ex_15s_1 :: location where
  "ex_15s_1 = closed_session ''2025-01-10T08:00:00.000Z'' ''2025-01-10T08:00:15.000Z''"

definition ex_15s_2 :: location where
  "ex_15s_2 = closed_session ''2025-01-11T08:00:00.000Z'' ''2025-01-11T08:00:15.000Z''"

definition ex_15s_3 :: location where
  "ex_15s_3 = closed_session ''2025-01-12T08:00:00.000Z'' ''2025-01-12T08:00:15.000Z''"

section \<open>Basic facts\<close>

lemma to_double_0 [simp]: "to_double 0 = 0"
  by (simp add: to_double_def)

subsection \<open>The exponent of a rational\<close>

lemma powi_nat: "0 \<le> k \<Longrightarrow> (2::rat) powi k = 2 ^ nat k"
  by (simp add: power_int_def)

lemma floor_log2_ge1:
  assumes "1 \<le> \<bar>x\<bar>"
  shows "2 powi (floor_log2 x) \<le> \<bar>x\<bar> \<and> \<bar>x\<bar> < 2 powi (floor_log2 x + 1)"
proof -
  define n where "n = \<lfloor>\<bar>x\<bar>\<rfloor>"
  have n1: "1 \<le> n" using assms by (simp add: n_def le_floor_iff)
  then have n0: "0 < n" by simp
  have fl: "floor_log2 x = bitlen n - 1" using assms by (simp add: floor_log2_def n_def)
  have b1: "1 \<le> bitlen n" using n0 by (simp add: bitlen_alt_def)
  from bitlen_bounds [OF n0]
  have lo: "2 ^ nat (bitlen n - 1) \<le> n" and hi: "n < 2 ^ nat (bitlen n)" by auto
  have "(2::rat) powi (bitlen n - 1) = of_int (2 ^ nat (bitlen n - 1))"
    using b1 by (simp add: powi_nat)
  also have "\<dots> \<le> of_int n" using lo by (simp only: of_int_le_iff)
  also have "\<dots> \<le> \<bar>x\<bar>" by (simp add: n_def)
  finally have A: "2 powi (floor_log2 x) \<le> \<bar>x\<bar>" by (simp add: fl)
  have "n + 1 \<le> 2 ^ nat (bitlen n)" using hi by simp
  then have "(of_int (n + 1) :: rat) \<le> of_int (2 ^ nat (bitlen n))" by (simp only: of_int_le_iff)
  moreover have "\<bar>x\<bar> < of_int (n + 1)" using floor_correct [of "\<bar>x\<bar>"] by (simp add: n_def)
  ultimately have "\<bar>x\<bar> < of_int (2 ^ nat (bitlen n))" by linarith
  also have "\<dots> = 2 powi (bitlen n)" using b1 by (simp add: powi_nat)
  finally have B: "\<bar>x\<bar> < 2 powi (floor_log2 x + 1)" by (simp add: fl)
  from A B show ?thesis ..
qed

lemma floor_log2_lt1:
  assumes "x \<noteq> 0" "\<bar>x\<bar> < 1"
  shows "2 powi (floor_log2 x) \<le> \<bar>x\<bar> \<and> \<bar>x\<bar> < 2 powi (floor_log2 x + 1)"
proof -
  define y where "y = 1 / \<bar>x\<bar>"
  define m where "m = \<lceil>y\<rceil> - 1"
  have xpos: "0 < \<bar>x\<bar>" using assms by simp
  have y1: "1 < y" using assms xpos by (simp add: y_def)
  have ypos: "0 < y" using y1 by simp
  have xy: "\<bar>x\<bar> = 1 / y" using xpos by (simp add: y_def)
  have m_lt: "of_int m < y" using ceiling_correct [of y] by (simp add: m_def)
  have y_le: "y \<le> of_int (m + 1)" by (simp add: m_def)
  have "1 < \<lceil>y\<rceil>" using y1 by (simp add: less_ceiling_iff)
  then have m0: "0 < m" by (simp add: m_def)
  have fl: "floor_log2 x = - bitlen m" using assms by (simp add: floor_log2_def m_def y_def)
  have b1: "1 \<le> bitlen m" using m0 by (simp add: bitlen_alt_def)
  from bitlen_bounds [OF m0]
  have lo: "2 ^ nat (bitlen m - 1) \<le> m" and hi: "m < 2 ^ nat (bitlen m)" by auto
  have "m + 1 \<le> 2 ^ nat (bitlen m)" using hi by simp
  then have "(of_int (m + 1) :: rat) \<le> of_int (2 ^ nat (bitlen m))" by (simp only: of_int_le_iff)
  with y_le have "y \<le> of_int (2 ^ nat (bitlen m))" by linarith
  also have "\<dots> = 2 powi (bitlen m)" using b1 by (simp add: powi_nat)
  finally have yle: "y \<le> 2 powi (bitlen m)" .
  have p0: "(0::rat) < 2 powi k" for k by simp
  have "1 / (2 powi (bitlen m)) \<le> 1 / y" using yle ypos by (simp add: frac_le)
  then have A: "2 powi (floor_log2 x) \<le> \<bar>x\<bar>"
    by (simp add: fl xy power_int_minus_divide)
  have "(2::rat) powi (bitlen m - 1) = of_int (2 ^ nat (bitlen m - 1))"
    using b1 by (simp add: powi_nat)
  also have "\<dots> \<le> of_int m" using lo by (simp only: of_int_le_iff)
  also have "\<dots> < y" by (rule m_lt)
  finally have ylt: "2 powi (bitlen m - 1) < y" .
  have "1 / y < 1 / (2 powi (bitlen m - 1))" using ylt p0 [of "bitlen m - 1"]
    by (simp add: frac_less2)
  also have "\<dots> = 2 powi (- (bitlen m - 1))" by (simp only: power_int_minus_divide)
  finally have B: "\<bar>x\<bar> < 2 powi (floor_log2 x + 1)" by (simp add: fl xy)
  from A B show ?thesis ..
qed

lemma floor_log2_bounds:
  "x \<noteq> 0 \<Longrightarrow> 2 powi (floor_log2 x) \<le> \<bar>x\<bar> \<and> \<bar>x\<bar> < 2 powi (floor_log2 x + 1)"
  using floor_log2_ge1 [of x] floor_log2_lt1 [of x] by (cases "1 \<le> \<bar>x\<bar>") auto

lemma rhe_floor_or_succ:
  "round_half_even y = \<lfloor>y\<rfloor> \<or> round_half_even y = \<lfloor>y\<rfloor> + 1"
  by (simp add: round_half_even_def Let_def)

lemma rhe_ge_floor: "\<lfloor>y\<rfloor> \<le> round_half_even y"
  using rhe_floor_or_succ [of y] by auto

lemma rhe_le_succ: "round_half_even y \<le> \<lfloor>y\<rfloor> + 1"
  using rhe_floor_or_succ [of y] by auto

lemma rhe_err: "\<bar>of_int (round_half_even y) - y\<bar> \<le> 1/2"
proof -
  have "of_int \<lfloor>y\<rfloor> \<le> y" "y < of_int \<lfloor>y\<rfloor> + 1" using floor_correct [of y] by auto
  then show ?thesis
    by (auto simp: round_half_even_def Let_def abs_le_iff)
qed

lemma rhe_of_int [simp]: "round_half_even (of_int n) = n"
  by (simp add: round_half_even_def)

lemma rhe_mono:
  assumes "x \<le> y"
  shows "round_half_even x \<le> round_half_even y"
proof (cases "\<lfloor>x\<rfloor> = \<lfloor>y\<rfloor>")
  case True
  with assms show ?thesis
    by (auto simp: round_half_even_def Let_def)
next
  case False
  with assms have "\<lfloor>x\<rfloor> < \<lfloor>y\<rfloor>" using floor_mono [of x y] by linarith
  then have "round_half_even x \<le> \<lfloor>y\<rfloor>" using rhe_le_succ [of x] by linarith
  then show ?thesis using rhe_ge_floor [of y] by linarith
qed

lemma rhe_minus: "round_half_even (- y) = - round_half_even y"
proof (cases "y = of_int \<lfloor>y\<rfloor>")
  case True
  then obtain n where "y = of_int n" ..
  then have "- y = of_int (- n)" by simp
  with \<open>y = of_int n\<close> show ?thesis by (simp only: rhe_of_int)
next
  case False
  then have lt: "of_int \<lfloor>y\<rfloor> < y" using floor_correct [of y] by linarith
  have "y < of_int \<lfloor>y\<rfloor> + 1" using floor_correct [of y] by simp
  with lt have f: "\<lfloor>- y\<rfloor> = - \<lfloor>y\<rfloor> - 1"
    by (intro floor_unique) auto
  show ?thesis
    using lt by (auto simp: round_half_even_def Let_def f)
qed

lemma rhe_ge: "of_int n \<le> y \<Longrightarrow> n \<le> round_half_even y"
  using rhe_mono [of "of_int n" y] by simp

lemma rhe_le: "y \<le> of_int n \<Longrightarrow> round_half_even y \<le> n"
  using rhe_mono [of y "of_int n"] by simp

lemma powi_less_imp: "(2::rat) powi a < 2 powi b \<Longrightarrow> a < b"
  using power_int_increasing [of b a "2::rat"] by (cases "a < b") auto

lemma floor_log2_unique:
  assumes "2 powi k \<le> \<bar>x\<bar>" "\<bar>x\<bar> < 2 powi (k + 1)"
  shows "floor_log2 x = k"
proof -
  have "(0::rat) < 2 powi k" by simp
  with assms(1) have "0 < \<bar>x\<bar>" by linarith
  then have x0: "x \<noteq> 0" by auto
  from floor_log2_bounds [OF x0]
  have lo: "2 powi (floor_log2 x) \<le> \<bar>x\<bar>" and hi: "\<bar>x\<bar> < 2 powi (floor_log2 x + 1)" by auto
  from lo assms(2) have "(2::rat) powi (floor_log2 x) < 2 powi (k + 1)" by linarith
  then have a: "floor_log2 x < k + 1" by (rule powi_less_imp)
  from assms(1) hi have "(2::rat) powi k < 2 powi (floor_log2 x + 1)" by linarith
  then have b: "k < floor_log2 x + 1" by (rule powi_less_imp)
  from a b show ?thesis by linarith
qed

lemma floor_log2_minus [simp]: "floor_log2 (- x) = floor_log2 x"
  by (simp add: floor_log2_def)

lemma floor_log2_mono:
  assumes "x \<noteq> 0" "\<bar>x\<bar> \<le> \<bar>y\<bar>"
  shows "floor_log2 x \<le> floor_log2 y"
proof -
  from assms have y0: "y \<noteq> 0" by auto
  from floor_log2_bounds [OF assms(1)] floor_log2_bounds [OF y0] assms(2)
  have "(2::rat) powi (floor_log2 x) < 2 powi (floor_log2 y + 1)" by linarith
  then have "floor_log2 x < floor_log2 y + 1" by (rule powi_less_imp)
  then show ?thesis by linarith
qed

lemma powi_split: "(2::rat) powi (a + b) = 2 powi a * 2 powi b"
  by (simp add: power_int_add)

lemma powi_cancel [simp]: "(2::rat) powi (- a) * 2 powi a = 1" "(2::rat) powi a * 2 powi (- a) = 1"
  by (simp_all flip: powi_split)

lemma powi_52: "(2::rat) powi 52 = 4503599627370496"
  by simp

lemma scaled_bounds:
  assumes "x \<noteq> 0"
  defines "e \<equiv> floor_log2 x - 52"
  shows "2 ^ 52 \<le> \<bar>x * 2 powi (- e)\<bar>" "\<bar>x * 2 powi (- e)\<bar> < 2 ^ 53"
proof -
  have p: "(0::rat) < 2 powi (- e)" by simp
  have abs: "\<bar>x * 2 powi (- e)\<bar> = \<bar>x\<bar> * 2 powi (- e)" by (simp add: abs_mult)
  from floor_log2_bounds [OF assms(1)]
  have lo: "2 powi (floor_log2 x) \<le> \<bar>x\<bar>" and hi: "\<bar>x\<bar> < 2 powi (floor_log2 x + 1)" by auto
  have "(2::rat) powi (floor_log2 x) * 2 powi (- e) = 2 powi (floor_log2 x + (- e))"
    by (simp only: powi_split)
  also have "\<dots> = 2 ^ 52" by (simp add: e_def)
  finally have a: "(2::rat) powi (floor_log2 x) * 2 powi (- e) = 2 ^ 52" .
  have "(2::rat) powi (floor_log2 x + 1) * 2 powi (- e) = 2 powi (floor_log2 x + 1 + (- e))"
    by (simp only: powi_split)
  also have "\<dots> = 2 ^ 53" by (simp add: e_def)
  finally have b: "(2::rat) powi (floor_log2 x + 1) * 2 powi (- e) = 2 ^ 53" .
  from lo p have "2 powi (floor_log2 x) * 2 powi (- e) \<le> \<bar>x\<bar> * 2 powi (- e)"
    by (simp only: mult_le_cancel_right_pos)
  then show "2 ^ 52 \<le> \<bar>x * 2 powi (- e)\<bar>" by (simp only: a abs)
  from hi p have "\<bar>x\<bar> * 2 powi (- e) < 2 powi (floor_log2 x + 1) * 2 powi (- e)"
    by (simp only: mult_less_cancel_right_pos)
  then show "\<bar>x * 2 powi (- e)\<bar> < 2 ^ 53" by (simp only: b abs)
qed

lemma to_double_minus: "to_double (- x) = - to_double x"
  by (simp add: to_double_def rhe_minus Let_def)

lemma to_double_nz:
  "x \<noteq> 0 \<Longrightarrow> to_double x =
     of_int (round_half_even (x * 2 powi (- (floor_log2 x - 52)))) * 2 powi (floor_log2 x - 52)"
  by (simp add: to_double_def Let_def)

lemma to_double_err_abs:
  assumes "x \<noteq> 0"
  shows "\<bar>to_double x - x\<bar> \<le> 2 powi (floor_log2 x - 53)"
proof -
  define e where "e = floor_log2 x - 52"
  define s where "s = x * 2 powi (- e)"
  have x: "x = s * 2 powi e" by (simp add: s_def mult.assoc)
  have "to_double x - x = (of_int (round_half_even s) - s) * 2 powi e"
    using assms by (simp add: to_double_nz e_def [symmetric] s_def [symmetric] x [symmetric] algebra_simps)
  then have "\<bar>to_double x - x\<bar> = \<bar>of_int (round_half_even s) - s\<bar> * 2 powi e"
    by (simp add: abs_mult)
  also have "\<dots> \<le> (1/2) * 2 powi e"
    using rhe_err [of s] by (intro mult_right_mono) auto
  also have "\<dots> = 2 powi (- 1) * 2 powi e" by simp
  also have "\<dots> = 2 powi (- 1 + e)" by (simp only: powi_split)
  also have "\<dots> = 2 powi (floor_log2 x - 53)" by (simp add: e_def)
  finally show ?thesis .
qed

lemma to_double_err: "\<bar>to_double x - x\<bar> \<le> \<bar>x\<bar> / 2 ^ 53"
proof (cases "x = 0")
  case True
  then show ?thesis by simp
next
  case False
  have "floor_log2 x - 53 = floor_log2 x + (- 53)" by simp
  then have "(2::rat) powi (floor_log2 x - 53) = 2 powi (floor_log2 x) * 2 powi (- 53)"
    by (simp only: powi_split)
  also have "\<dots> \<le> \<bar>x\<bar> * 2 powi (- 53)"
    using floor_log2_bounds [OF False] by (intro mult_right_mono) auto
  also have "\<dots> = \<bar>x\<bar> / 2 ^ 53" by (simp add: power_int_minus_divide)
  finally show ?thesis using to_double_err_abs [OF False] by linarith
qed

lemma to_double_pos_bounds:
  assumes "0 < x"
  shows "2 powi (floor_log2 x) \<le> to_double x" "to_double x \<le> 2 powi (floor_log2 x + 1)"
proof -
  define e where "e = floor_log2 x - 52"
  define s where "s = x * 2 powi (- e)"
  from assms have x0: "x \<noteq> 0" by simp
  have spos: "0 < s" using assms by (simp add: s_def)
  from scaled_bounds [OF x0] spos
  have lo: "of_int (2 ^ 52) \<le> s" and hi: "s \<le> of_int (2 ^ 53)"
    by (simp_all add: s_def e_def)
  have td: "to_double x = of_int (round_half_even s) * 2 powi e"
    using x0 by (simp add: to_double_nz e_def s_def)
  have p: "(0::rat) \<le> 2 powi e" by simp
  have "(2::rat) powi (floor_log2 x) = 2 powi (52 + e)" by (simp add: e_def)
  also have "\<dots> = of_int (2 ^ 52) * 2 powi e" by (simp only: powi_split) simp
  also have "\<dots> \<le> of_int (round_half_even s) * 2 powi e"
    using rhe_ge [OF lo] p by (intro mult_right_mono) (simp_all only: of_int_le_iff)
  finally show "2 powi (floor_log2 x) \<le> to_double x" by (simp only: td)
  have "(of_int (round_half_even s) :: rat) * 2 powi e \<le> of_int (2 ^ 53) * 2 powi e"
    using rhe_le [OF hi] p by (intro mult_right_mono) (simp_all only: of_int_le_iff)
  also have "\<dots> = 2 powi (53 + e)" by (simp only: powi_split) simp
  also have "53 + e = floor_log2 x + 1" by (simp add: e_def)
  finally show "to_double x \<le> 2 powi (floor_log2 x + 1)" by (simp only: td)
qed

lemma to_double_pos: "0 < x \<Longrightarrow> 0 < to_double x"
proof -
  assume "0 < x"
  from to_double_pos_bounds(1) [OF this] have "2 powi (floor_log2 x) \<le> to_double x" .
  moreover have "(0::rat) < 2 powi (floor_log2 x)" by simp
  ultimately show ?thesis by linarith
qed

lemma to_double_neg: "x < 0 \<Longrightarrow> to_double x < 0"
  using to_double_pos [of "- x"] by (simp add: to_double_minus)

lemma to_double_mono_pos:
  assumes "0 < x" "x \<le> y"
  shows "to_double x \<le> to_double y"
proof (cases "floor_log2 x = floor_log2 y")
  case True
  define e where "e = floor_log2 x - 52"
  from assms have x0: "x \<noteq> 0" and y0: "y \<noteq> 0" by auto
  have p: "(0::rat) \<le> 2 powi e" "(0::rat) \<le> 2 powi (- e)" by simp_all
  have "x * 2 powi (- e) \<le> y * 2 powi (- e)" using assms(2) p(2) by (rule mult_right_mono)
  then have "round_half_even (x * 2 powi (- e)) \<le> round_half_even (y * 2 powi (- e))"
    by (rule rhe_mono)
  then have "(of_int (round_half_even (x * 2 powi (- e))) :: rat)
               \<le> of_int (round_half_even (y * 2 powi (- e)))"
    by (simp only: of_int_le_iff)
  then have "(of_int (round_half_even (x * 2 powi (- e))) :: rat) * 2 powi e
               \<le> of_int (round_half_even (y * 2 powi (- e))) * 2 powi e"
    using p(1) by (rule mult_right_mono)
  then show ?thesis
    using x0 y0 True by (simp add: to_double_nz e_def)
next
  case False
  from assms have y: "0 < y" by simp
  from assms have "floor_log2 x \<le> floor_log2 y" by (intro floor_log2_mono) auto
  with False have "floor_log2 x + 1 \<le> floor_log2 y" by simp
  then have "(2::rat) powi (floor_log2 x + 1) \<le> 2 powi (floor_log2 y)"
    by (intro power_int_increasing) auto
  with to_double_pos_bounds(2) [OF assms(1)] to_double_pos_bounds(1) [OF y]
  show ?thesis by linarith
qed

lemma to_double_mono:
  assumes "x \<le> y"
  shows "to_double x \<le> to_double y"
proof -
  consider "0 < x" | "y < 0" | "x \<le> 0" "0 \<le> y" using assms by linarith
  then show ?thesis
  proof cases
    case 1
    then show ?thesis using assms by (rule to_double_mono_pos)
  next
    case 2
    then have "0 < - y" "- y \<le> - x" using assms by auto
    then have "to_double (- y) \<le> to_double (- x)" by (rule to_double_mono_pos)
    then show ?thesis by (simp add: to_double_minus)
  next
    case 3
    have a: "to_double x \<le> 0"
      using 3(1) to_double_neg [of x] by (cases "x = 0") auto
    have b: "0 \<le> to_double y"
      using 3(2) to_double_pos [of y] by (cases "y = 0") auto
    from a b show ?thesis by linarith
  qed
qed

lemma to_double_repr_strict:
  assumes "\<bar>m\<bar> < 2 ^ 53"
  shows "to_double (of_int m * 2 powi k) = of_int m * 2 powi k"
proof (cases "m = 0")
  case True
  then show ?thesis by simp
next
  case False
  define y :: rat where "y = of_int m * 2 powi k"
  define E where "E = floor_log2 y"
  have y0: "y \<noteq> 0" using False by (simp add: y_def)
  have absy: "\<bar>y\<bar> = of_int \<bar>m\<bar> * 2 powi k" by (simp add: y_def abs_mult)
  have "(of_int \<bar>m\<bar> :: rat) < of_int (2 ^ 53)" using assms by (simp only: of_int_less_iff)
  then have "of_int \<bar>m\<bar> * 2 powi k < (of_int (2 ^ 53) :: rat) * 2 powi k"
    by (simp only: mult_less_cancel_right_pos zero_less_power_int zero_less_numeral)
  also have "\<dots> = 2 powi (53 + k)" by (simp only: powi_split) simp
  finally have "\<bar>y\<bar> < 2 powi (53 + k)" by (simp only: absy)
  with floor_log2_bounds [OF y0] have "(2::rat) powi E < 2 powi (53 + k)"
    unfolding E_def by linarith
  then have "E < 53 + k" by (rule powi_less_imp)
  define j where "j = nat (k + 52 - E)"
  have j: "int j = k + 52 - E" using \<open>E < 53 + k\<close> by (simp add: j_def)
  have "y * 2 powi (- (E - 52)) = of_int m * (2 powi k * 2 powi (- (E - 52)))"
    by (simp add: y_def mult.assoc)
  also have "2 powi k * 2 powi (- (E - 52)) = (2::rat) powi (k + (- (E - 52)))"
    by (simp only: powi_split)
  also have "k + (- (E - 52)) = int j" by (simp add: j)
  also have "(2::rat) powi (int j) = of_int (2 ^ j)" by simp
  finally have sc: "y * 2 powi (- (E - 52)) = of_int (m * 2 ^ j)" by simp
  have "to_double y = of_int (round_half_even (y * 2 powi (- (E - 52)))) * 2 powi (E - 52)"
    unfolding E_def by (rule to_double_nz [OF y0])
  also have "\<dots> = of_int (m * 2 ^ j) * 2 powi (E - 52)"
    by (simp only: sc rhe_of_int)
  also have "\<dots> = of_int m * ((2::rat) powi (int j) * 2 powi (E - 52))" by simp
  also have "(2::rat) powi (int j) * 2 powi (E - 52) = 2 powi (int j + (E - 52))"
    by (simp only: powi_split)
  also have "int j + (E - 52) = k" by (simp add: j)
  finally show ?thesis by (simp only: y_def)
qed

lemma to_double_repr:
  assumes "\<bar>m\<bar> \<le> 2 ^ 53"
  shows "to_double (of_int m * 2 powi k) = of_int m * 2 powi k"
proof (cases "\<bar>m\<bar> < 2 ^ 53")
  case True
  then show ?thesis by (rule to_double_repr_strict)
next
  case False
  with assms have "\<bar>m\<bar> = 2 ^ 53" by simp
  then consider "m = 2 ^ 53" | "m = - (2 ^ 53)" by (auto simp: abs_if split: if_splits)
  then obtain h :: int where h: "m = h * 2" "\<bar>h\<bar> < 2 ^ 53"
  proof cases
    case 1
    then have "m = (2 ^ 52) * 2" "\<bar>2 ^ 52 :: int\<bar> < 2 ^ 53" by simp_all
    then show ?thesis by (rule that)
  next
    case 2
    then have "m = (- (2 ^ 52)) * 2" "\<bar>- (2 ^ 52) :: int\<bar> < 2 ^ 53" by simp_all
    then show ?thesis by (rule that)
  qed
  have "(of_int m :: rat) * 2 powi k = of_int h * (2 powi 1 * 2 powi k)" by (simp add: h(1))
  also have "(2::rat) powi 1 * 2 powi k = 2 powi (1 + k)" by (simp only: powi_split)
  finally have eq: "(of_int m :: rat) * 2 powi k = of_int h * 2 powi (1 + k)" .
  show ?thesis unfolding eq using h(2) by (rule to_double_repr_strict)
qed

lemma to_double_mantissa:
  assumes "x \<noteq> 0"
  shows "\<bar>round_half_even (x * 2 powi (- (floor_log2 x - 52)))\<bar> \<le> 2 ^ 53"
proof -
  define s where "s = x * 2 powi (- (floor_log2 x - 52))"
  from scaled_bounds(2) [OF assms] have "\<bar>s\<bar> < 2 ^ 53" by (simp add: s_def)
  then have "s \<le> of_int (2 ^ 53)" "of_int (- (2 ^ 53)) \<le> s" by (simp_all add: abs_less_iff)
  then have "round_half_even s \<le> 2 ^ 53" "- (2 ^ 53) \<le> round_half_even s"
    by (auto intro: rhe_le rhe_ge)
  then show ?thesis unfolding s_def by (simp add: abs_le_iff)
qed

lemma to_double_idem [simp]: "to_double (to_double x) = to_double x"
proof (cases "x = 0")
  case True
  then show ?thesis by simp
next
  case False
  show ?thesis
    unfolding to_double_nz [OF False]
    by (rule to_double_repr) (rule to_double_mantissa [OF False])
qed

lemma to_double_of_int: "\<bar>n\<bar> \<le> 2 ^ 53 \<Longrightarrow> to_double (of_int n) = of_int n"
  using to_double_repr [of n 0] by simp

lemma py_round2_0 [simp]: "py_round2 0 = 0"
  by (simp add: py_round2_def round_half_even_def)


lemma rhe_numeral [simp]: "round_half_even (numeral k) = numeral k"
  using rhe_of_int [of "numeral k"] by simp

lemma rhe_0 [simp]: "round_half_even 0 = 0"
  using rhe_of_int [of 0] by simp

lemma rhe_1 [simp]: "round_half_even 1 = 1"
  using rhe_of_int [of 1] by simp

lemma float_add_commute: "float_add a b = float_add b a"
  by (simp add: float_add_def add.commute)

lemma float_add_0_div [simp]: "float_add 0 (float_div a b) = float_div a b"
  by (simp add: float_add_def float_div_def)

lemma float_add_0_2: "float_add 0 2 = 2"
  using to_double_of_int [of 2] by (simp add: float_add_def)

lemma py_round2_err: "\<bar>py_round2 a - a\<bar> \<le> round_slack a"
proof -
  define r :: rat where "r = of_int (round_half_even (a * 100)) / 100"
  have "r - a = (of_int (round_half_even (a * 100)) - a * 100) / 100" by (simp add: r_def)
  then have "\<bar>r - a\<bar> = \<bar>of_int (round_half_even (a * 100)) - a * 100\<bar> / 100"
    by (simp only: abs_divide abs_numeral)
  also have "\<dots> \<le> (1/2) / 100" using rhe_err [of "a * 100"] by (intro divide_right_mono) auto
  finally have ra: "\<bar>r - a\<bar> \<le> 1 / 200" by simp
  then have "\<bar>r\<bar> \<le> \<bar>a\<bar> + 1 / 200" by linarith
  then have "\<bar>r\<bar> / 2 ^ 53 \<le> (\<bar>a\<bar> + 1 / 200) / 2 ^ 53" by (intro divide_right_mono) auto
  with to_double_err [of r] have "\<bar>to_double r - r\<bar> \<le> (\<bar>a\<bar> + 1 / 200) / 2 ^ 53" by linarith
  with ra have "\<bar>to_double r - a\<bar> \<le> 1 / 200 + (\<bar>a\<bar> + 1 / 200) / 2 ^ 53" by linarith
  then show ?thesis by (simp only: py_round2_def r_def round_slack_def)
qed






subsection \<open>Running the program on concrete records\<close>

lemma str_nat_numeral:
  "str_nat (numeral k) =
     (if numeral k < (10::nat) then [digit_char (numeral k)]
      else str_nat (numeral k div 10) @ [digit_char (numeral k mod 10)])"
  by (rule str_nat.simps)

lemma str_nat_0: "str_nat 0 = ''0''"
  by (simp add: str_nat.simps digit_char_def)

lemma str_nat_1: "str_nat 1 = ''1''"
  by (simp add: str_nat.simps digit_char_def)

lemma str_nat_Suc0: "str_nat (Suc 0) = ''1''"
  by (simp add: str_nat.simps digit_char_def)

lemmas eval_str = str_nat_numeral str_nat_0 str_nat_1 str_nat_Suc0 digit_char_def str_int_def
  zfill_def strftime_Ymd_def strftime_Ym_def isoformat_def format_offset_def

lemmas eval_date = toordinal_def ymd2ord_def ord2ymd_def days_before_year_def
  days_before_month_def days_in_month_def is_leap_def DAYS_IN_MONTH_def DAYS_BEFORE_MONTH_def
  minus_days_def datetime_sub_def Let_def

lemmas eval_parse = fromisoformat_def parse_date_def parse_time_def parse_offset_def
  parse_digits_def digit_val_def replace_Z_def days_in_month_def is_leap_def
  DAYS_IN_MONTH_def Let_def

lemma float_div_ints:
  "b \<noteq> 0 \<Longrightarrow> a mod b = 0 \<Longrightarrow> \<bar>a div b\<bar> \<le> 2 ^ 53
     \<Longrightarrow> float_div (of_int a) (of_int b) = of_int (a div b)"
proof -
  assume b: "b \<noteq> 0" and m: "a mod b = 0" and le: "\<bar>a div b\<bar> \<le> 2 ^ 53"
  from m have "a = (a div b) * b" by auto
  then have "(of_int a :: rat) = of_int (a div b) * of_int b" by (metis of_int_mult)
  then have "(of_int a :: rat) / of_int b = of_int (a div b)" using b by simp
  then show ?thesis using to_double_of_int [OF le] by (simp add: float_div_def)
qed

lemma total_seconds_whole:
  "td mod 1000000 = 0 \<Longrightarrow> \<bar>td div 1000000\<bar> \<le> 2 ^ 53
     \<Longrightarrow> total_seconds td = of_int (td div 1000000)"
  using float_div_ints [of 1000000 td] by (simp add: total_seconds_def int_truediv_def float_div_def)


lemmas eval_interval = closed_session_def begin_and_duration_def end_or_now_def
  hours_between_def at_utc_def eval_parse eval_date total_seconds_whole

lemma ex_1s_a_interval:
  "begin_and_duration fromisoformat now ex_1s_a = Inr (at_utc 2025 1 10 8 0 0, float_div 1 3600)"
  by (simp add: ex_1s_a_def eval_interval)

lemma ex_1s_b_interval:
  "begin_and_duration fromisoformat now ex_1s_b = Inr (at_utc 2025 1 10 9 0 0, float_div 1 3600)"
  by (simp add: ex_1s_b_def eval_interval)

lemma ex_88s_interval:
  "begin_and_duration fromisoformat now ex_88s = Inr (at_utc 2025 1 10 10 0 0, float_div 88 3600)"
  by (simp add: ex_88s_def eval_interval)

lemma ex_15s_1_interval:
  "begin_and_duration fromisoformat now ex_15s_1 = Inr (at_utc 2025 1 10 8 0 0, float_div 15 3600)"
  by (simp add: ex_15s_1_def eval_interval)

lemma ex_15s_2_interval:
  "begin_and_duration fromisoformat now ex_15s_2 = Inr (at_utc 2025 1 11 8 0 0, float_div 15 3600)"
  by (simp add: ex_15s_2_def eval_interval)

lemma ex_15s_3_interval:
  "begin_and_duration fromisoformat now ex_15s_3 = Inr (at_utc 2025 1 12 8 0 0, float_div 15 3600)"
  by (simp add: ex_15s_3_def eval_interval)

lemma at_utc_keys:
  "strftime_Ymd (at_utc 2025 1 10 hh mm ss) = ''2025-01-10''"
  "strftime_Ymd (at_utc 2025 1 11 hh mm ss) = ''2025-01-11''"
  "strftime_Ymd (at_utc 2025 1 12 hh mm ss) = ''2025-01-12''"
  "strftime_Ym (at_utc 2025 1 d hh mm ss) = ''2025-01''"
  by (simp_all add: at_utc_def eval_str)

lemmas eval_calc = calculate_hours_def loop_body_def bucket_add_def round_values_def

section \<open>Facts about the aggregator\<close>

lemma map_of_bucket_add:
  "map_of (bucket_add k d D) = (map_of D)(k \<mapsto> float_add (dict_get D k 0) d)"
  by (cases "map_of D k") (simp_all add: bucket_add_def dict_get_def update_conv')

lemma keys_bucket_add: "fst ` set (bucket_add k d D) = insert k (fst ` set D)"
proof -
  have "dom (map_of (bucket_add k d D)) = insert k (dom (map_of D))"
    by (simp add: map_of_bucket_add)
  then show ?thesis by (simp only: dom_map_of_conv_image_fst)
qed

lemma distinct_bucket_add:
  "distinct (map fst D) \<Longrightarrow> distinct (map fst (bucket_add k d D))"
  by (cases "map_of D k") (simp_all add: bucket_add_def distinct_update update_conv' Let_def)

lemma collect_Cons:
  "collect f (x # xs) = Inr ys \<longleftrightarrow> (\<exists>y ys'. f x = Inr y \<and> collect f xs = Inr ys' \<and> ys = y # ys')"
  by (auto split: sum.splits)

lemma accumulate_intervals:
  "accumulate parse now locs acc =
     (case intervals parse now locs of
        Inl e \<Rightarrow> Inl e
      | Inr ivs \<Rightarrow> Inr (add_all strftime_Ymd ivs (fst acc), add_all strftime_Ym ivs (snd acc)))"
proof (induction locs arbitrary: acc)
  case Nil
  then show ?case by (simp add: intervals_def add_all_def)
next
  case (Cons loc locs)
  show ?case
  proof (cases "begin_and_duration parse now loc")
    case (Inl e)
    then show ?thesis by (simp add: intervals_def loop_body_def)
  next
    case (Inr bd)
    then have lb: "loop_body parse now loc acc =
        Inr (bucket_add (strftime_Ymd (fst bd)) (snd bd) (fst acc),
             bucket_add (strftime_Ym (fst bd)) (snd bd) (snd acc))"
      by (simp add: loop_body_def split: prod.splits)
    show ?thesis
      using Inr Cons.IH by (simp add: lb intervals_def add_all_def split: sum.splits)
  qed
qed

lemma foldl_float_add_dict_get:
  "map_of (add_all key ivs D) k =
     (if bucket_durations key ivs k = [] then map_of D k
      else Some (foldl float_add (dict_get D k 0) (bucket_durations key ivs k)))"
proof (induction ivs arbitrary: D)
  case Nil
  then show ?case by (simp add: add_all_def bucket_durations_def)
next
  case (Cons iv ivs)
  have step: "add_all key (iv # ivs) D = add_all key ivs (bucket_add (key (fst iv)) (snd iv) D)"
    by (simp add: add_all_def)
  show ?case
  proof (cases "key (fst iv) = k")
    case True
    then show ?thesis
      unfolding step Cons.IH
      by (simp add: bucket_durations_def map_of_bucket_add dict_get_def)
  next
    case False
    then show ?thesis
      unfolding step Cons.IH
      by (simp add: bucket_durations_def map_of_bucket_add dict_get_def)
  qed
qed

lemma map_of_round_values: "map_of (round_values D) k = map_option py_round2 (map_of D k)"
  by (simp add: round_values_def map_of_map)

lemma keys_round_values: "map fst (round_values D) = map fst D"
  by (simp add: round_values_def case_prod_unfold)

lemma map_of_add_all_empty:
  "map_option py_round2 (map_of (add_all key ivs []) k) = bucket_total key ivs k"
  by (simp add: foldl_float_add_dict_get bucket_total_def bucket_sum_def py_sum_def dict_get_def)

lemma calculate_hours_intervals:
  "calculate_hours parse now locs =
     (case intervals parse now locs of
        Inl e \<Rightarrow> Inl e
      | Inr ivs \<Rightarrow> Inr (round_values (add_all strftime_Ymd ivs []),
                       round_values (add_all strftime_Ym ivs [])))"
  by (simp add: calculate_hours_def accumulate_intervals split: sum.splits)




lemma map_Inr_eq [simp]: "map Inr ys = map Inr zs \<longleftrightarrow> ys = zs"
  by (simp add: inj_map_eq_map)

lemma collect_map:
  "collect f xs = Inr zs \<longleftrightarrow> map f xs = map Inr zs"
proof (induction xs arbitrary: zs)
  case Nil
  then show ?case by auto
next
  case (Cons x xs)
  show ?case
  proof (cases "f x")
    case (Inl e)
    then show ?thesis by (cases zs) auto
  next
    case (Inr y)
    show ?thesis
    proof (cases "collect f xs")
      case (Inl e)
      with Cons.IH have "\<And>zs'. map f xs \<noteq> map Inr zs'" by auto
      with Inl Inr show ?thesis by (cases zs) auto
    next
      case r: (Inr ys)
      with Cons.IH [of ys] have m: "map f xs = map Inr ys" by simp
      show ?thesis using Inr r m by (cases zs) auto
    qed
  qed
qed

lemma collect_perm:
  assumes "mset ys = mset xs" "collect f xs = Inr zs"
  shows "\<exists>zs'. collect f ys = Inr zs' \<and> mset zs' = mset zs"
proof -
  from assms(2) have m: "map f xs = map Inr zs" by (simp add: collect_map)
  define g where "g x = (case f x of Inr y \<Rightarrow> y | Inl e \<Rightarrow> undefined)" for x
  have ok: "f x = Inr (g x)" if "x \<in> set xs" for x
  proof -
    from that m have "f x \<in> set (map Inr zs)" by (metis image_eqI set_map)
    then show ?thesis by (auto simp: g_def)
  qed
  have sets: "set ys = set xs" using assms(1) by (rule mset_eq_setD)
  have "map f ys = map Inr (map g ys)" using ok sets by simp
  then have c: "collect f ys = Inr (map g ys)" by (simp add: collect_map)
  have "map f xs = map Inr (map g xs)" using ok by simp
  from m [symmetric] this have "map (Inr :: _ \<Rightarrow> exn + _) zs = map Inr (map g xs)"
    by (rule trans)
  then have "zs = map g xs" by (simp only: map_Inr_eq)
  then have "mset (map g ys) = mset zs" using assms(1) by simp
  with c show ?thesis by blast
qed

lemma dom_bucket_total: "dom (bucket_total key ivs) = key ` fst ` set ivs"
proof -
  have "bucket_durations key ivs k \<noteq> [] \<longleftrightarrow> k \<in> key ` fst ` set ivs" for k
    by (auto simp: bucket_durations_def filter_empty_conv)
  then show ?thesis by (auto simp: bucket_total_def bucket_sum_def dom_def)
qed

lemma durations_are_floats:
  "begin_and_duration parse now loc = Inr (b, d) \<Longrightarrow> to_double d = d"
  by (auto simp: begin_and_duration_def hours_between_def float_div_def
      split: option.splits sum.splits)

lemma intervals_are_floats:
  assumes "intervals parse now locs = Inr ivs" "iv \<in> set ivs"
  shows "to_double (snd iv) = snd iv"
proof -
  from assms(1) have "map (begin_and_duration parse now) locs = map Inr ivs"
    by (simp add: intervals_def collect_map)
  then have "Inr iv \<in> set (map (begin_and_duration parse now) locs)" using assms(2) by simp
  then obtain loc where "begin_and_duration parse now loc = Inr iv" by auto
  then show ?thesis using durations_are_floats [of parse now loc "fst iv" "snd iv"] by simp
qed

lemma length_bucket_durations: "length (bucket_durations key ivs k) \<le> length ivs"
  by (simp add: bucket_durations_def)

section \<open>Every interval goes whole into the buckets of its begin timestamp\<close>

lemma ex_boundary_parse_begin:
  "fromisoformat (replace_Z (loc_begin_at ex_boundary)) = Some ex_boundary_begin"
  by (simp add: ex_boundary_def ex_boundary_begin_def eval_parse)

lemma ex_boundary_parse_end:
  "end_or_now fromisoformat ex_now_utc ex_boundary
     = Some (ex_boundary_begin\<lparr>dt_month := 4, dt_day := 1, dt_hour := 1\<rparr>)"
  by (simp add: ex_boundary_def ex_boundary_begin_def end_or_now_def eval_parse)

lemma ex_boundary_hours:
  "hours_between (ex_boundary_begin\<lparr>dt_month := 4, dt_day := 1, dt_hour := 1\<rparr>) ex_boundary_begin
     = Inr 2"
  using float_div_ints [of 3600 7200]
  by (simp add: hours_between_def ex_boundary_begin_def eval_date total_seconds_whole)

lemma ex_boundary_interval:
  "begin_and_duration fromisoformat ex_now_utc ex_boundary = Inr (ex_boundary_begin, 2)"
  by (simp add: begin_and_duration_def ex_boundary_parse_begin ex_boundary_parse_end
      ex_boundary_hours)

lemma py_round2_2: "py_round2 2 = 2"
  using to_double_of_int [of 2] by (simp add: py_round2_def)

lemma ex_boundary_keys:
  "strftime_Ymd ex_boundary_begin = ''2025-03-31''" "strftime_Ym ex_boundary_begin = ''2025-03''"
  by (simp_all add: ex_boundary_begin_def eval_str)

lemma ex_boundary_calc:
  "calculate_hours fromisoformat ex_now_utc [ex_boundary]
     = Inr ([(''2025-03-31'', 2)], [(''2025-03'', 2)])"
  using to_double_of_int [of 2]
  by (simp add: calculate_hours_def loop_body_def ex_boundary_interval ex_boundary_keys
      bucket_add_def round_values_def py_round2_2 float_add_def)

text \<open>
  C1. When \<^verbatim>\<open>calculate_hours\<close> returns, every record has been read as one interval, and
  the value under each day key (month key) is the rounded sum of the whole durations of
  exactly those intervals whose begin timestamp has that day (month): an interval is
  never split, and it is counted under one day key and one month key. The interval from
  2025-03-31T23:00Z to 2025-04-01T01:00Z gives its 2 hours to \<open>2025-03-31\<close> and \<open>2025-03\<close>.
\<close>

theorem whole_duration_one_bucket:
  assumes "calculate_hours parse now locations = Inr (daily_hours, monthly_hours)"
  shows "\<exists>ivs. intervals parse now locations = Inr ivs
           \<and> map_of daily_hours = bucket_total strftime_Ymd ivs
           \<and> map_of monthly_hours = bucket_total strftime_Ym ivs"
proof -
  from assms obtain ivs where ivs: "intervals parse now locations = Inr ivs"
    and D: "daily_hours = round_values (add_all strftime_Ymd ivs [])"
    and M: "monthly_hours = round_values (add_all strftime_Ym ivs [])"
    by (auto simp: calculate_hours_intervals split: sum.splits)
  have "map_of daily_hours = bucket_total strftime_Ymd ivs"
    by (rule ext) (simp only: D map_of_round_values map_of_add_all_empty)
  moreover have "map_of monthly_hours = bucket_total strftime_Ym ivs"
    by (rule ext) (simp only: M map_of_round_values map_of_add_all_empty)
  ultimately show ?thesis using ivs by blast
qed

theorem whole_duration_one_bucket_witness:
  "calculate_hours fromisoformat ex_now_utc [ex_boundary]
     = Inr ([(''2025-03-31'', 2)], [(''2025-03'', 2)]) \<and>
   intervals fromisoformat ex_now_utc [ex_boundary] = Inr [(ex_boundary_begin, 2)] \<and>
   map_of [(''2025-03-31'', 2)] = bucket_total strftime_Ymd [(ex_boundary_begin, 2)] \<and>
   map_of [(''2025-03'', 2)] = bucket_total strftime_Ym [(ex_boundary_begin, 2)]"
proof -
  have i: "intervals fromisoformat ex_now_utc [ex_boundary] = Inr [(ex_boundary_begin, 2)]"
    by (simp add: intervals_def ex_boundary_interval)
  from whole_duration_one_bucket [OF ex_boundary_calc] i ex_boundary_calc
  show ?thesis by simp
qed

section \<open>An open interval grows with the clock\<close>



section \<open>An interval that ends before it begins\<close>



section \<open>The current session\<close>








section \<open>The location label\<close>




section \<open>The elapsed-time formatter\<close>

text \<open>
  Floor division and remainder of a float by a whole number \<open>n \<ge> 2\<close> are exact as long as
  the float is below \<open>2^53\<close> in size: the quotient is the floor of the exact quotient.
\<close>

lemma trunc_bounds:
  fixes q :: rat
  defines "T \<equiv> (if 0 \<le> q then \<lfloor>q\<rfloor> else \<lceil>q\<rceil>)"
  shows "\<bar>of_int T\<bar> \<le> \<bar>q\<bar>"
proof (cases "0 \<le> q")
  case True
  then have "0 \<le> \<lfloor>q\<rfloor>" by simp
  then show ?thesis using True floor_correct [of q] by (simp add: T_def)
next
  case False
  then have "\<lceil>q\<rceil> \<le> 0" by (simp add: ceiling_le_iff)
  then show ?thesis using False ceiling_correct [of q] by (simp add: T_def)
qed

lemma float_divmod_exact:
  fixes v :: rat and n :: int
  assumes v: "\<bar>v\<bar> \<le> 2 ^ 53" and n: "2 \<le> n"
  defines "q \<equiv> \<lfloor>v / of_int n\<rfloor>"
  shows "float_floordiv v (of_int n) = of_int q"
    and "float_mod v (of_int n) = v - of_int q * of_int n
         \<or> float_mod v (of_int n) = to_double (v - of_int q * of_int n)"
proof -
  define w :: rat where "w = of_int n"
  define T where "T = (if 0 \<le> v / w then \<lfloor>v / w\<rfloor> else \<lceil>v / w\<rceil>)"
  have w2: "2 \<le> w" using n by (simp add: w_def)
  then have wpos: "0 < w" by simp
  have Tq: "\<bar>of_int T :: rat\<bar> \<le> \<bar>v / w\<bar>" unfolding T_def by (rule trunc_bounds)
  have "\<bar>v / w\<bar> = \<bar>v\<bar> / w" using wpos by simp
  also have "\<dots> \<le> \<bar>v\<bar> / 2" using w2 by (intro divide_left_mono) auto
  finally have vw: "\<bar>v / w\<bar> \<le> \<bar>v\<bar> / 2" .
  have "\<bar>v\<bar> / 2 \<le> 2 ^ 52" using v by simp
  with Tq vw have "\<bar>of_int T :: rat\<bar> \<le> 2 ^ 52" by linarith
  then have T52: "\<bar>T\<bar> \<le> 2 ^ 52" by (metis of_int_abs of_int_le_iff of_int_numeral of_int_power)
  have "\<bar>of_int (T * n) :: rat\<bar> = \<bar>of_int T\<bar> * w" using wpos by (simp add: w_def abs_mult)
  also have "\<dots> \<le> \<bar>v / w\<bar> * w" using Tq wpos by (intro mult_right_mono) auto
  also have "\<dots> = \<bar>v\<bar>" using wpos by simp
  finally have "\<bar>of_int (T * n) :: rat\<bar> \<le> 2 ^ 53" using v by linarith
  then have Tn53: "\<bar>T * n\<bar> \<le> 2 ^ 53"
    by (metis of_int_abs of_int_le_iff of_int_numeral of_int_power)
  define mod0 where "mod0 = c_fmod v w"
  have mod0: "mod0 = v - of_int T * w" by (simp add: mod0_def c_fmod_def T_def)
  have sub: "float_sub v mod0 = of_int (T * n)"
    using to_double_of_int [OF Tn53] by (simp add: float_sub_def mod0 w_def)
  have div0: "float_div (float_sub v mod0) w = of_int T"
    using float_div_ints [of n "T * n"] n T52 by (simp add: sub w_def)
  have T1: "float_sub (of_int T) 1 = of_int (T - 1)"
    using to_double_of_int [of "T - 1"] T52 by (simp add: float_sub_def)
  define adjust where "adjust = (mod0 \<noteq> 0 \<and> ((w < 0) \<noteq> (mod0 < 0)))"
  have adj: "adjust \<longleftrightarrow> mod0 < 0" using wpos by (auto simp: adjust_def)
  define dv :: rat where "dv = (if adjust then of_int (T - 1) else of_int T)"
  have fd: "float_divmod v w =
      ((if dv \<noteq> 0 then (let f = of_int \<lfloor>dv\<rfloor> in if float_sub dv f > 1/2 then float_add f 1 else f)
        else 0),
       (if adjust then float_add mod0 w else mod0))"
    unfolding float_divmod_def Let_def mod0_def [symmetric] div0 T1 adjust_def [symmetric]
      dv_def [symmetric]
    by (rule refl)
  obtain D :: int where D: "dv = of_int D" and Dd: "D = (if adjust then T - 1 else T)"
    by (simp add: dv_def)
  have fl: "(if dv \<noteq> 0 then (let f = of_int \<lfloor>dv\<rfloor> in if float_sub dv f > 1/2 then float_add f 1 else f)
        else 0) = dv"
    by (simp add: D float_sub_def)
  have qD: "q = D"
  proof (cases "0 \<le> v / w")
    case True
    then have "T = \<lfloor>v / w\<rfloor>" by (simp add: T_def)
    moreover have "of_int \<lfloor>v / w\<rfloor> \<le> v / w" by simp
    then have "of_int \<lfloor>v / w\<rfloor> * w \<le> v" using wpos by (simp only: pos_le_divide_eq)
    then have "0 \<le> mod0" unfolding mod0 \<open>T = \<lfloor>v / w\<rfloor>\<close> by simp
    ultimately show ?thesis by (simp add: q_def w_def Dd adj)
  next
    case False
    then have T: "T = \<lceil>v / w\<rceil>" by (simp add: T_def)
    have "v / w \<le> of_int \<lceil>v / w\<rceil>" by simp
    then have "v \<le> of_int \<lceil>v / w\<rceil> * w" using wpos by (simp only: pos_divide_le_eq)
    then have le: "mod0 \<le> 0" unfolding mod0 T by simp
    show ?thesis
    proof (cases "mod0 = 0")
      case True
      then have "v / w = of_int T" using wpos by (simp add: mod0 field_simps)
      then have "\<lfloor>v / w\<rfloor> = T" by simp
      then show ?thesis using True by (simp add: q_def w_def Dd adj)
    next
      case nz: False
      with le have neg: "mod0 < 0" by simp
      then have "v / w < of_int T" using wpos by (simp add: mod0 pos_divide_less_eq)
      moreover have "of_int T - 1 < v / w" using ceiling_correct [of "v / w"] by (simp add: T)
      ultimately have "\<lfloor>v / w\<rfloor> = T - 1" by (intro floor_unique) auto
      then show ?thesis using neg by (simp add: q_def w_def Dd adj)
    qed
  qed
  show "float_floordiv v (of_int n) = of_int q"
    unfolding float_floordiv_def w_def [symmetric] fd fl by (simp add: D qD)
  have md: "float_mod v w = (if adjust then float_add mod0 w else mod0)"
    by (simp add: float_mod_def fd)
  have "v - of_int q * w = (if adjust then mod0 + w else mod0)"
    by (simp add: qD Dd mod0 algebra_simps)
  then show "float_mod v (of_int n) = v - of_int q * of_int n
         \<or> float_mod v (of_int n) = to_double (v - of_int q * of_int n)"
    unfolding w_def [symmetric] md by (auto simp: float_add_def)
qed

lemma py_int_of_int [simp]: "py_int (of_int k) = k"
  by (simp add: py_int_def)

lemma to_double_ge_int:
  assumes "\<bar>k\<bar> \<le> 2 ^ 53" "of_int k \<le> x"
  shows "of_int k \<le> to_double x"
proof -
  have "to_double (of_int k) \<le> to_double x" using assms(2) by (rule to_double_mono)
  then show ?thesis by (simp only: to_double_of_int [OF assms(1)])
qed

lemma render_exact:
  assumes td: "\<bar>td\<bar> \<le> 2 ^ 52"
  shows "py_int (float_floordiv (total_seconds td) 3600) = td div 3600000000"
    and "py_int (float_floordiv (float_mod (total_seconds td) 3600) 60)
           = (td mod 3600000000) div 60000000"
proof -
  define x :: rat where "x = of_int td / 1000000"
  define ts where "ts = total_seconds td"
  define H where "H = td div 3600000000"
  define r where "r = td mod 3600000000"
  define M where "M = r div 60000000"
  have ts: "ts = to_double x" by (simp add: ts_def x_def total_seconds_def int_truediv_def)
  have tdr: "\<bar>of_int td :: rat\<bar> \<le> 2 ^ 52"
    using td by (metis of_int_abs of_int_le_iff of_int_numeral of_int_power)
  have xb: "\<bar>x\<bar> \<le> 2 ^ 52 / 1000000" using tdr by (simp add: x_def divide_right_mono)
  have "\<bar>ts - x\<bar> \<le> \<bar>x\<bar> / 2 ^ 53" unfolding ts by (rule to_double_err)
  also have "\<dots> \<le> (2 ^ 52 / 1000000) / 2 ^ 53" using xb by (intro divide_right_mono) auto
  also have "\<dots> = 1 / 2000000" by simp
  finally have err: "\<bar>ts - x\<bar> \<le> 1 / 2000000" .
  have "\<bar>ts\<bar> \<le> \<bar>x\<bar> + \<bar>ts - x\<bar>" by linarith
  also have "\<dots> \<le> 2 ^ 52 / 1000000 + 1 / 2000000" using xb err by (rule add_mono)
  also have "\<dots> \<le> 2 ^ 53" by simp
  finally have tsb: "\<bar>ts\<bar> \<le> 2 ^ 53" .
  have split: "td = 3600000000 * H + r" by (simp add: H_def r_def)
  have r0: "0 \<le> r" and r1: "r < 3600000000" by (simp_all add: r_def)
  have rM: "r = 60000000 * M + r mod 60000000" by (simp add: M_def)
  have M0: "0 \<le> M" and M1: "M \<le> 59" using r0 r1 by (simp_all add: M_def)
  have rlo: "60000000 * M \<le> r" and rhi: "r \<le> 60000000 * M + 59999999"
    using rM pos_mod_bound [of 60000000 r] pos_mod_sign [of 60000000 r] by linarith+
  have xs: "x = 3600 * of_int H + of_int r / 1000000"
    by (simp add: x_def split add_divide_distrib)
  have rr: "(of_int (60000000 * M) :: rat) \<le> of_int r" "(of_int r :: rat) \<le> of_int (60000000 * M + 59999999)"
    "(0::rat) \<le> of_int r" "(of_int r :: rat) \<le> of_int (3600000000 - 1)"
    using rlo rhi r0 r1 by (simp_all only: of_int_le_iff)
  have Hb: "\<bar>3600 * H + 60 * M\<bar> \<le> 2 ^ 53" and Hb0: "\<bar>3600 * H\<bar> \<le> 2 ^ 53"
  proof -
    have "- 4503599627370496 \<le> td" "td \<le> 4503599627370496"
      using td by (simp_all add: abs_le_iff)
    with split r0 r1 M0 M1
    have "- 9007199254740992 \<le> 3600 * H + 60 * M" "3600 * H + 60 * M \<le> 9007199254740992"
      "- 9007199254740992 \<le> 3600 * H" "3600 * H \<le> 9007199254740992"
      by linarith+
    then show "\<bar>3600 * H + 60 * M\<bar> \<le> 2 ^ 53" "\<bar>3600 * H\<bar> \<le> 2 ^ 53"
      by (simp_all add: abs_le_iff)
  qed
  have lo: "of_int (3600 * H + 60 * M) \<le> ts"
    unfolding ts using Hb
  proof (rule to_double_ge_int)
    show "of_int (3600 * H + 60 * M) \<le> x" using rr(1) by (simp add: xs)
  qed
  have "(of_int r :: rat) \<le> 60000000 * of_int M + 59999999" using rr(2) by simp
  then have "(of_int r :: rat) / 1000000 \<le> (60000000 * of_int M + 59999999) / 1000000"
    by (rule divide_right_mono) simp
  also have "\<dots> = 60 * of_int M + 59999999 / 1000000" by (simp add: add_divide_distrib)
  finally have rup: "(of_int r :: rat) / 1000000 \<le> 60 * of_int M + 59999999 / 1000000" .
  from err have "ts \<le> x + 1 / 2000000" by linarith
  with rup have hi: "ts \<le> 3600 * of_int H + 60 * of_int M + 60 - 1 / 2000000"
    unfolding xs by linarith
  have "ts < 3600 * of_int H + 3600" using hi M1 by simp
  moreover have "3600 * of_int H \<le> ts" using lo M0 by simp
  ultimately have "\<lfloor>ts / 3600\<rfloor> = H" by (intro floor_unique) (simp_all add: field_simps)
  with float_divmod_exact(1) [of ts 3600] tsb
  have fd: "float_floordiv ts 3600 = of_int H" by simp
  then show "py_int (float_floordiv (total_seconds td) 3600) = td div 3600000000"
    by (simp add: ts_def [symmetric] H_def)
  define y where "y = ts - 3600 * of_int H"
  have ylo: "60 * of_int M \<le> y" using lo by (simp add: y_def)
  have yhi: "y \<le> 60 * of_int M + 60 - 1 / 2000000" using hi by (simp add: y_def)
  have y0: "0 \<le> y" using ylo M0 by simp
  have y1: "y \<le> 3600" using yhi M1 by simp
  define md where "md = float_mod ts 3600"
  from float_divmod_exact(2) [of ts 3600] tsb \<open>\<lfloor>ts / 3600\<rfloor> = H\<close>
  have "md = y \<or> md = to_double y" by (simp add: md_def y_def mult.commute)
  moreover have "60 * of_int M \<le> to_double y"
    using to_double_ge_int [of "60 * M" y] M0 M1 ylo by simp
  moreover have "to_double y < 60 * of_int M + 60"
  proof -
    have "\<bar>to_double y - y\<bar> \<le> \<bar>y\<bar> / 2 ^ 53" by (rule to_double_err)
    also have "\<dots> \<le> 3600 / 2 ^ 53" using y0 y1 by (intro divide_right_mono) auto
    also have "\<dots> \<le> 1 / 4000000" by simp
    finally have "to_double y \<le> y + 1 / 4000000" by linarith
    with yhi show ?thesis by linarith
  qed
  ultimately have mlo: "60 * of_int M \<le> md" and mhi: "md < 60 * of_int M + 60"
    using ylo yhi by auto
  then have "\<lfloor>md / 60\<rfloor> = M" by (intro floor_unique) (simp_all add: field_simps)
  moreover have "\<bar>md\<bar> \<le> 2 ^ 53" using mlo mhi M0 M1 by simp
  ultimately have "float_floordiv md 60 = of_int M"
    using float_divmod_exact(1) [of md 60] by simp
  then show "py_int (float_floordiv (float_mod (total_seconds td) 3600) 60)
           = (td mod 3600000000) div 60000000"
    by (simp add: md_def [symmetric] ts_def [symmetric] M_def r_def)
qed

text \<open>
  C9. \<^verbatim>\<open>format_time_difference\<close> returns a string for every input: the placeholder
  \<^verbatim>\<open>"Error calculating time"\<close> when the timestamp cannot be read (and when it can be read
  but has no offset, so that it cannot be subtracted from the aware clock reading), and a
  rendering of the difference otherwise. For a difference of up to \<open>2^52\<close> microseconds
  (142 years) either way, the float computation is exact: the rendering is
  \<^verbatim>\<open>"{hours}h {minutes}m"\<close> with the whole hours and the whole minutes of the remainder,
  or \<^verbatim>\<open>"{minutes}m"\<close> when the difference is under one hour.
\<close>

theorem format_time_difference_total:
  "(parse (replace_Z s) = None \<longrightarrow>
      format_time_difference parse now s = ''Error calculating time'')
   \<and> (\<forall>start_time e.
         parse (replace_Z s) = Some start_time \<and> datetime_sub now start_time = Inl e \<longrightarrow>
         format_time_difference parse now s = ''Error calculating time'')
   \<and> (\<forall>start_time diff.
         parse (replace_Z s) = Some start_time \<and> datetime_sub now start_time = Inr diff \<longrightarrow>
         format_time_difference parse now s = render_difference diff
         \<and> (\<bar>diff\<bar> \<le> 2 ^ 52 \<longrightarrow>
              render_difference diff =
                (if 3600000000 \<le> diff
                 then str_int (diff div 3600000000) @ ''h ''
                        @ str_int ((diff mod 3600000000) div 60000000) @ ''m''
                 else str_int ((diff mod 3600000000) div 60000000) @ ''m'')))"
proof -
  have "render_difference diff =
          (if 3600000000 \<le> diff
           then str_int (diff div 3600000000) @ ''h ''
                  @ str_int ((diff mod 3600000000) div 60000000) @ ''m''
           else str_int ((diff mod 3600000000) div 60000000) @ ''m'')"
    if "\<bar>diff\<bar> \<le> 2 ^ 52" for diff
  proof -
    have "0 < diff div 3600000000 \<longleftrightarrow> 3600000000 \<le> diff"
      by (simp add: pos_imp_zdiv_pos_iff)
    then show ?thesis
      by (simp add: render_difference_def render_exact [OF that] Let_def)
  qed
  then show ?thesis by (simp add: format_time_difference_def)
qed

theorem format_time_difference_total_witness:
  "format_time_difference fromisoformat ex_now_utc ''garbage'' = ''Error calculating time'' \<and>
   format_time_difference fromisoformat ex_now_utc ''2025-05-01T14:30:00''
     = ''Error calculating time'' \<and>
   format_time_difference fromisoformat ex_now_utc ''2025-04-25T20:34:59+00:00'' = ''135h 25m''"
proof -
  have g: "fromisoformat (replace_Z ''garbage'') = None" by (simp add: eval_parse)
  have n: "fromisoformat (replace_Z ''2025-05-01T14:30:00'')
      = Some ((at_utc 2025 5 1 14 30 0)\<lparr>dt_utcoffset := None\<rparr>)"
    by (simp add: at_utc_def eval_parse)
  have ns: "datetime_sub ex_now_utc ((at_utc 2025 5 1 14 30 0)\<lparr>dt_utcoffset := None\<rparr>)
      = Inl TypeError"
    by (simp add: at_utc_def ex_now_utc_def eval_date)
  have w: "fromisoformat (replace_Z ''2025-04-25T20:34:59+00:00'')
      = Some (at_utc 2025 4 25 20 34 59)"
    by (simp add: at_utc_def eval_parse)
  have ws: "datetime_sub ex_now_utc (at_utc 2025 4 25 20 34 59) = Inr 487501000000"
    by (simp add: at_utc_def ex_now_utc_def eval_date)
  from format_time_difference_total [of fromisoformat "''garbage''" ex_now_utc] g
  have 1: "format_time_difference fromisoformat ex_now_utc ''garbage''
             = ''Error calculating time''" by blast
  from format_time_difference_total [of fromisoformat "''2025-05-01T14:30:00''" ex_now_utc] n ns
  have 2: "format_time_difference fromisoformat ex_now_utc ''2025-05-01T14:30:00''
             = ''Error calculating time''" by blast
  from format_time_difference_total
    [of fromisoformat "''2025-04-25T20:34:59+00:00''" ex_now_utc] w ws
  have "format_time_difference fromisoformat ex_now_utc ''2025-04-25T20:34:59+00:00''
          = render_difference 487501000000"
    and "\<bar>487501000000 :: int\<bar> \<le> 2 ^ 52 \<longrightarrow>
          render_difference 487501000000 =
            (if (3600000000 :: int) \<le> 487501000000
             then str_int (487501000000 div 3600000000) @ ''h ''
                    @ str_int ((487501000000 mod 3600000000) div 60000000) @ ''m''
             else str_int ((487501000000 mod 3600000000) div 60000000) @ ''m'')"
    by blast+
  then have 3: "format_time_difference fromisoformat ex_now_utc ''2025-04-25T20:34:59+00:00''
             = ''135h 25m''" by (simp add: eval_str)
  from 1 2 3 show ?thesis by blast
qed

section \<open>An empty window\<close>



section \<open>The order of the records\<close>

lemma py_sum_two:
  assumes "mset ds' = mset ds" "length ds \<le> 2" "\<forall>d \<in> set ds. to_double d = d"
  shows "py_sum ds' = py_sum ds"
proof -
  have len: "length ds' = length ds" using assms(1) by (rule mset_eq_length)
  consider "ds = []" | a where "ds = [a]" | a b where "ds = [a, b]"
    using assms(2) by (cases ds rule: list.exhaust; cases "tl ds"; cases "tl (tl ds)") auto
  then show ?thesis
  proof cases
    case 1
    with assms(1) show ?thesis by simp
  next
    case 2
    with assms(1) show ?thesis by simp
  next
    case 3
    with len obtain a' b' where ds': "ds' = [a', b']"
      by (cases ds'; cases "tl ds'"; cases "tl (tl ds')") auto
    from assms(1) 3 ds' have "(a' = a \<and> b' = b) \<or> (a' = b \<and> b' = a)"
      by (auto simp: add_eq_conv_ex)
    moreover have "to_double a = a" "to_double b = b" using assms(3) 3 by auto
    ultimately show ?thesis
      using 3 ds' by (auto simp: py_sum_def float_add_def add.commute)
  qed
qed

lemma mset_bucket_durations:
  "mset ivs' = mset ivs \<Longrightarrow> mset (bucket_durations key ivs' k) = mset (bucket_durations key ivs k)"
  by (simp add: bucket_durations_def)

text \<open>
  C3, as amended. A permutation of a list on which \<^verbatim>\<open>calculate_hours\<close> returns makes it
  return too, with the same day keys and the same month keys. The value of a bucket is the
  same when the intervals of that bucket come in the same order in both lists, or when
  the bucket holds at most two intervals. (Float addition is commutative but not
  associative: three intervals of one bucket can add up differently in another order,
  as the sessions of 1, 1 and 88 seconds below do.)
\<close>

theorem reordering:
  assumes "mset ys = mset xs"
    and "calculate_hours parse now xs = Inr (daily_hours, monthly_hours)"
  shows "\<exists>daily_hours' monthly_hours' ivs ivs'.
           calculate_hours parse now ys = Inr (daily_hours', monthly_hours')
         \<and> intervals parse now xs = Inr ivs \<and> intervals parse now ys = Inr ivs'
         \<and> dom (map_of daily_hours') = dom (map_of daily_hours)
         \<and> dom (map_of monthly_hours') = dom (map_of monthly_hours)
         \<and> (\<forall>k. bucket_durations strftime_Ymd ivs' k = bucket_durations strftime_Ymd ivs k
                 \<or> length (bucket_durations strftime_Ymd ivs k) \<le> 2
                 \<longrightarrow> map_of daily_hours' k = map_of daily_hours k)
         \<and> (\<forall>k. bucket_durations strftime_Ym ivs' k = bucket_durations strftime_Ym ivs k
                 \<or> length (bucket_durations strftime_Ym ivs k) \<le> 2
                 \<longrightarrow> map_of monthly_hours' k = map_of monthly_hours k)"
proof -
  from assms(2) obtain ivs where ivs: "intervals parse now xs = Inr ivs"
    and D: "daily_hours = round_values (add_all strftime_Ymd ivs [])"
    and M: "monthly_hours = round_values (add_all strftime_Ym ivs [])"
    by (auto simp: calculate_hours_intervals split: sum.splits)
  from collect_perm [OF assms(1) ivs [unfolded intervals_def]]
  obtain ivs' where ivs': "intervals parse now ys = Inr ivs'" and ms: "mset ivs' = mset ivs"
    by (auto simp: intervals_def)
  define D' where "D' = round_values (add_all strftime_Ymd ivs' [])"
  define M' where "M' = round_values (add_all strftime_Ym ivs' [])"
  have c: "calculate_hours parse now ys = Inr (D', M')"
    by (simp add: calculate_hours_intervals ivs' D'_def M'_def)
  have mo: "map_of (round_values (add_all key zs [])) = bucket_total key zs" for key zs
    by (rule ext) (simp only: map_of_round_values map_of_add_all_empty)
  have sets: "set ivs' = set ivs" using ms by (rule mset_eq_setD)
  have vals: "bucket_total key ivs' k = bucket_total key ivs k"
    if "bucket_durations key ivs' k = bucket_durations key ivs k
        \<or> length (bucket_durations key ivs k) \<le> 2" for key k
  proof -
    have "py_sum (bucket_durations key ivs' k) = py_sum (bucket_durations key ivs k)"
      and "bucket_durations key ivs' k = [] \<longleftrightarrow> bucket_durations key ivs k = []"
    proof -
      have m: "mset (bucket_durations key ivs' k) = mset (bucket_durations key ivs k)"
        using ms by (rule mset_bucket_durations)
      show "bucket_durations key ivs' k = [] \<longleftrightarrow> bucket_durations key ivs k = []"
        using m by (metis mset_zero_iff)
      have fl: "\<forall>d \<in> set (bucket_durations key ivs k). to_double d = d"
        using intervals_are_floats [OF ivs] by (auto simp: bucket_durations_def)
      show "py_sum (bucket_durations key ivs' k) = py_sum (bucket_durations key ivs k)"
        using that py_sum_two [OF m _ fl] by auto
    qed
    then show ?thesis by (simp add: bucket_total_def bucket_sum_def)
  qed
  have "dom (map_of D') = dom (map_of daily_hours)"
    by (simp only: D D'_def mo dom_bucket_total sets)
  moreover have "dom (map_of M') = dom (map_of monthly_hours)"
    by (simp only: M M'_def mo dom_bucket_total sets)
  moreover have "\<forall>k. bucket_durations strftime_Ymd ivs' k = bucket_durations strftime_Ymd ivs k
                 \<or> length (bucket_durations strftime_Ymd ivs k) \<le> 2
                 \<longrightarrow> map_of D' k = map_of daily_hours k"
    using vals [of strftime_Ymd] by (simp only: D D'_def mo) blast
  moreover have "\<forall>k. bucket_durations strftime_Ym ivs' k = bucket_durations strftime_Ym ivs k
                 \<or> length (bucket_durations strftime_Ym ivs k) \<le> 2
                 \<longrightarrow> map_of M' k = map_of monthly_hours k"
    using vals [of strftime_Ym] by (simp only: M M'_def mo) blast
  ultimately show ?thesis using c ivs ivs' by blast
qed

lemma sum_1_1_88:
  "py_round2 (float_add (float_add (float_div 1 3600) (float_div 1 3600))
     (float_div 88 3600)) = to_double (3 / 100)"
  by code_simp

lemma sum_88_1_1:
  "py_round2 (float_add (float_add (float_div 88 3600) (float_div 1 3600))
     (float_div 1 3600)) = to_double (2 / 100)"
  by code_simp

lemma float_3_2: "to_double (3 / 100) \<noteq> to_double (2 / 100)"
  by code_simp

lemma ex_order_a:
  "calculate_hours fromisoformat ex_now_utc [ex_1s_a, ex_1s_b, ex_88s]
     = Inr ([(''2025-01-10'', to_double (3 / 100))], [(''2025-01'', to_double (3 / 100))])"
  by (simp add: eval_calc ex_1s_a_interval ex_1s_b_interval ex_88s_interval at_utc_keys
      sum_1_1_88)

lemma ex_order_b:
  "calculate_hours fromisoformat ex_now_utc [ex_88s, ex_1s_a, ex_1s_b]
     = Inr ([(''2025-01-10'', to_double (2 / 100))], [(''2025-01'', to_double (2 / 100))])"
  by (simp add: eval_calc ex_1s_a_interval ex_1s_b_interval ex_88s_interval at_utc_keys
      sum_88_1_1)

theorem reordering_counterexample:
  "mset [ex_88s, ex_1s_a, ex_1s_b] = mset [ex_1s_a, ex_1s_b, ex_88s] \<and>
   calculate_hours fromisoformat ex_now_utc [ex_1s_a, ex_1s_b, ex_88s]
     = Inr ([(''2025-01-10'', to_double (3 / 100))], [(''2025-01'', to_double (3 / 100))]) \<and>
   calculate_hours fromisoformat ex_now_utc [ex_88s, ex_1s_a, ex_1s_b]
     = Inr ([(''2025-01-10'', to_double (2 / 100))], [(''2025-01'', to_double (2 / 100))]) \<and>
   map_of [(''2025-01-10'', to_double (3 / 100))] ''2025-01-10''
     \<noteq> map_of [(''2025-01-10'', to_double (2 / 100))] ''2025-01-10''"
  using ex_order_a ex_order_b float_3_2 by simp

lemma round_1s: "py_round2 (float_div 1 3600) = 0"
  by code_simp

lemma ex_two_a:
  "calculate_hours fromisoformat ex_now_utc [ex_boundary, ex_1s_a]
     = Inr ([(''2025-03-31'', 2), (''2025-01-10'', 0)], [(''2025-03'', 2), (''2025-01'', 0)])"
  by (simp add: eval_calc ex_boundary_interval ex_1s_a_interval at_utc_keys ex_boundary_keys
      round_1s py_round2_2 float_add_0_2)

lemma ex_two_b:
  "calculate_hours fromisoformat ex_now_utc [ex_1s_a, ex_boundary]
     = Inr ([(''2025-01-10'', 0), (''2025-03-31'', 2)], [(''2025-01'', 0), (''2025-03'', 2)])"
  by (simp add: eval_calc ex_boundary_interval ex_1s_a_interval at_utc_keys ex_boundary_keys
      round_1s py_round2_2 float_add_0_2)

theorem reordering_witness:
  "mset [ex_1s_a, ex_boundary] = mset [ex_boundary, ex_1s_a] \<and>
   calculate_hours fromisoformat ex_now_utc [ex_boundary, ex_1s_a]
     = Inr ([(''2025-03-31'', 2), (''2025-01-10'', 0)], [(''2025-03'', 2), (''2025-01'', 0)]) \<and>
   calculate_hours fromisoformat ex_now_utc [ex_1s_a, ex_boundary]
     = Inr ([(''2025-01-10'', 0), (''2025-03-31'', 2)], [(''2025-01'', 0), (''2025-03'', 2)]) \<and>
   dom (map_of [(''2025-01-10'', 0::rat), (''2025-03-31'', 2)])
     = dom (map_of [(''2025-03-31'', 2::rat), (''2025-01-10'', 0)]) \<and>
   map_of [(''2025-01-10'', 0::rat), (''2025-03-31'', 2)]
     = map_of [(''2025-03-31'', 2), (''2025-01-10'', 0)] \<and>
   map_of [(''2025-01'', 0::rat), (''2025-03'', 2)] = map_of [(''2025-03'', 2), (''2025-01'', 0)]"
proof -
  have p: "mset [ex_1s_a, ex_boundary] = mset [ex_boundary, ex_1s_a]" by simp
  have i: "intervals fromisoformat ex_now_utc [ex_boundary, ex_1s_a]
             = Inr [(ex_boundary_begin, 2), (at_utc 2025 1 10 8 0 0, float_div 1 3600)]"
    by (simp add: intervals_def ex_boundary_interval ex_1s_a_interval)
  from reordering [OF p ex_two_a] obtain D' M' ivs ivs' where
    c: "calculate_hours fromisoformat ex_now_utc [ex_1s_a, ex_boundary] = Inr (D', M')"
    and ivs: "intervals fromisoformat ex_now_utc [ex_boundary, ex_1s_a] = Inr ivs"
    and d: "dom (map_of D') = dom (map_of [(''2025-03-31'', 2::rat), (''2025-01-10'', 0)])"
    and dv: "\<And>k. length (bucket_durations strftime_Ymd ivs k) \<le> 2
               \<Longrightarrow> map_of D' k = map_of [(''2025-03-31'', 2), (''2025-01-10'', 0)] k"
    and mv: "\<And>k. length (bucket_durations strftime_Ym ivs k) \<le> 2
               \<Longrightarrow> map_of M' k = map_of [(''2025-03'', 2), (''2025-01'', 0)] k"
    by blast
  from c ex_two_b have D': "D' = [(''2025-01-10'', 0), (''2025-03-31'', 2)]"
    and M': "M' = [(''2025-01'', 0), (''2025-03'', 2)]" by simp_all
  from ivs i have "length ivs = 2" by auto
  then have len: "length (bucket_durations key ivs k) \<le> 2" for key k
    using length_bucket_durations [of key ivs k] by simp
  have "map_of D' = map_of [(''2025-03-31'', 2), (''2025-01-10'', 0)]"
    by (rule ext) (rule dv [OF len])
  moreover have "map_of M' = map_of [(''2025-03'', 2), (''2025-01'', 0)]"
    by (rule ext) (rule mv [OF len])
  ultimately show ?thesis using p ex_two_a ex_two_b d unfolding D' M' by blast
qed

section \<open>Rounding once, after the accumulation\<close>

lemma sum_round_values:
  "\<bar>sum_list (map snd (round_values A)) - sum_list (map snd A)\<bar>
     \<le> sum_list (map (\<lambda>ka. round_slack (snd ka)) A)"
proof (induction A)
  case Nil
  then show ?case by (simp add: round_values_def)
next
  case (Cons ka A)
  obtain k a where ka: "ka = (k, a)" by (cases ka)
  have "round_values (ka # A) = (k, py_round2 a) # round_values A"
    by (simp add: round_values_def ka)
  then show ?case
    using Cons.IH py_round2_err [of a] by (simp add: ka)
qed

lemma map_of_add_all_sum: "map_of (add_all key ivs []) = bucket_sum key ivs"
  by (rule ext) (simp add: foldl_float_add_dict_get bucket_sum_def py_sum_def dict_get_def)

lemma distinct_add_all:
  "distinct (map fst D) \<Longrightarrow> distinct (map fst (add_all key ivs D))"
  unfolding add_all_def
  by (induction ivs arbitrary: D) (simp_all add: distinct_bucket_add)

text \<open>
  C2, as amended. The dicts that \<^verbatim>\<open>calculate_hours\<close> returns are the accumulated dicts
  \<open>A\<close> and \<open>B\<close> with \<^verbatim>\<open>round(a, 2)\<close> applied once to every value; an accumulated value is the
  plain float sum of the durations of its bucket, no rounding to decimals in between.
  Every returned value is within \<open>round_slack a\<close> of its accumulated value \<open>a\<close>, that is
  0.005 and the error of converting the decimal back to a float, so that the sum of the
  returned daily values is within that much per day bucket of the sum of the accumulated
  ones. The tolerance grows with the number of buckets: it is not 0.01 overall.
\<close>

theorem rounded_once:
  assumes "calculate_hours parse now locations = Inr (daily_hours, monthly_hours)"
  shows "\<exists>ivs A B.
           intervals parse now locations = Inr ivs
         \<and> accumulate parse now locations ([], []) = Inr (A, B)
         \<and> map_of A = bucket_sum strftime_Ymd ivs \<and> map_of B = bucket_sum strftime_Ym ivs
         \<and> daily_hours = map (\<lambda>(k, a). (k, py_round2 a)) A
         \<and> monthly_hours = map (\<lambda>(k, a). (k, py_round2 a)) B
         \<and> (\<forall>(k, a) \<in> set A \<union> set B. \<bar>py_round2 a - a\<bar> \<le> round_slack a)
         \<and> \<bar>sum_list (map snd daily_hours) - sum_list (map snd A)\<bar>
              \<le> sum_list (map (\<lambda>ka. round_slack (snd ka)) A)"
proof -
  from assms obtain ivs where ivs: "intervals parse now locations = Inr ivs"
    and D: "daily_hours = round_values (add_all strftime_Ymd ivs [])"
    and M: "monthly_hours = round_values (add_all strftime_Ym ivs [])"
    by (auto simp: calculate_hours_intervals split: sum.splits)
  define A where "A = add_all strftime_Ymd ivs []"
  define B where "B = add_all strftime_Ym ivs []"
  have acc: "accumulate parse now locations ([], []) = Inr (A, B)"
    by (simp add: accumulate_intervals ivs A_def B_def)
  have "\<forall>(k, a) \<in> set A \<union> set B. \<bar>py_round2 a - a\<bar> \<le> round_slack a"
    using py_round2_err by auto
  moreover have "\<bar>sum_list (map snd daily_hours) - sum_list (map snd A)\<bar>
              \<le> sum_list (map (\<lambda>ka. round_slack (snd ka)) A)"
    unfolding D A_def by (rule sum_round_values)
  moreover have "daily_hours = map (\<lambda>(k, a). (k, py_round2 a)) A"
    "monthly_hours = map (\<lambda>(k, a). (k, py_round2 a)) B"
    by (simp_all add: D M A_def B_def round_values_def)
  moreover have "map_of A = bucket_sum strftime_Ymd ivs" "map_of B = bucket_sum strftime_Ym ivs"
    by (simp_all add: A_def B_def map_of_add_all_sum)
  ultimately show ?thesis using ivs acc by blast
qed

lemma round_15s: "py_round2 (float_div 15 3600) = 0"
  by code_simp

lemma round_3x15s:
  "py_round2 (float_add (float_add (float_div 15 3600) (float_div 15 3600)) (float_div 15 3600))
     = to_double (1 / 100)"
  by code_simp

lemma ex_short_acc:
  "accumulate fromisoformat ex_now_utc [ex_15s_1, ex_15s_2, ex_15s_3] ([], [])
     = Inr ([(''2025-01-10'', float_div 15 3600), (''2025-01-11'', float_div 15 3600),
             (''2025-01-12'', float_div 15 3600)],
            [(''2025-01'', float_add (float_add (float_div 15 3600) (float_div 15 3600))
                             (float_div 15 3600))])"
  by (simp add: loop_body_def bucket_add_def ex_15s_1_interval ex_15s_2_interval
      ex_15s_3_interval at_utc_keys)

lemma ex_short_calc:
  "calculate_hours fromisoformat ex_now_utc [ex_15s_1, ex_15s_2, ex_15s_3]
     = Inr ([(''2025-01-10'', 0), (''2025-01-11'', 0), (''2025-01-12'', 0)],
            [(''2025-01'', to_double (1 / 100))])"
  unfolding calculate_hours_def ex_short_acc
  by (simp add: round_values_def round_15s round_3x15s)

lemma ex_short_exact:
  "exact_total fromisoformat ex_now_utc [ex_15s_1, ex_15s_2, ex_15s_3] = 1 / 80"
  by (simp add: exact_total_def exact_hours_def ex_15s_1_def ex_15s_2_def ex_15s_3_def
      closed_session_def end_or_now_def eval_parse eval_date)

theorem tolerance_counterexample:
  "calculate_hours fromisoformat ex_now_utc [ex_15s_1, ex_15s_2, ex_15s_3]
     = Inr ([(''2025-01-10'', 0), (''2025-01-11'', 0), (''2025-01-12'', 0)],
            [(''2025-01'', to_double (1 / 100))]) \<and>
   exact_total fromisoformat ex_now_utc [ex_15s_1, ex_15s_2, ex_15s_3] = 1 / 80 \<and>
   \<not> \<bar>sum_list (map snd [(''2025-01-10'', 0::rat), (''2025-01-11'', 0), (''2025-01-12'', 0)])
        - exact_total fromisoformat ex_now_utc [ex_15s_1, ex_15s_2, ex_15s_3]\<bar> \<le> 1 / 100"
  using ex_short_calc ex_short_exact by simp

theorem rounded_once_witness:
  "calculate_hours fromisoformat ex_now_utc [ex_15s_1, ex_15s_2, ex_15s_3]
     = Inr ([(''2025-01-10'', 0), (''2025-01-11'', 0), (''2025-01-12'', 0)],
            [(''2025-01'', to_double (1 / 100))]) \<and>
   accumulate fromisoformat ex_now_utc [ex_15s_1, ex_15s_2, ex_15s_3] ([], [])
     = Inr ([(''2025-01-10'', float_div 15 3600), (''2025-01-11'', float_div 15 3600),
             (''2025-01-12'', float_div 15 3600)],
            [(''2025-01'', float_add (float_add (float_div 15 3600) (float_div 15 3600))
                             (float_div 15 3600))]) \<and>
   \<bar>py_round2 (float_div 15 3600) - float_div 15 3600\<bar> \<le> round_slack (float_div 15 3600) \<and>
   \<bar>sum_list (map snd [(''2025-01-10'', 0::rat), (''2025-01-11'', 0), (''2025-01-12'', 0)])
      - sum_list (map snd [(''2025-01-10'', float_div 15 3600),
                           (''2025-01-11'', float_div 15 3600),
                           (''2025-01-12'', float_div 15 3600)])\<bar>
     \<le> round_slack (float_div 15 3600) + round_slack (float_div 15 3600)
         + round_slack (float_div 15 3600)"
proof -
  from rounded_once [OF ex_short_calc] obtain ivs A B where
    acc: "accumulate fromisoformat ex_now_utc [ex_15s_1, ex_15s_2, ex_15s_3] ([], []) = Inr (A, B)"
    and each: "\<forall>(k, a) \<in> set A \<union> set B. \<bar>py_round2 a - a\<bar> \<le> round_slack a"
    and tot: "\<bar>sum_list (map snd [(''2025-01-10'', 0::rat), (''2025-01-11'', 0),
                                   (''2025-01-12'', 0)]) - sum_list (map snd A)\<bar>
                \<le> sum_list (map (\<lambda>ka. round_slack (snd ka)) A)"
    by blast
  from acc ex_short_acc have A: "A = [(''2025-01-10'', float_div 15 3600),
      (''2025-01-11'', float_div 15 3600), (''2025-01-12'', float_div 15 3600)]" by simp
  from each have "\<bar>py_round2 (float_div 15 3600) - float_div 15 3600\<bar>
      \<le> round_slack (float_div 15 3600)" unfolding A by simp
  moreover from tot have "\<bar>sum_list (map snd [(''2025-01-10'', 0::rat), (''2025-01-11'', 0),
      (''2025-01-12'', 0)]) - sum_list (map snd [(''2025-01-10'', float_div 15 3600),
      (''2025-01-11'', float_div 15 3600), (''2025-01-12'', float_div 15 3600)])\<bar>
     \<le> round_slack (float_div 15 3600) + round_slack (float_div 15 3600)
         + round_slack (float_div 15 3600)" unfolding A by simp
  ultimately show ?thesis using ex_short_calc ex_short_acc by blast
qed

end
